theory Spec2Isabelle
  imports Complex_Main "HOL-Library.Word"
begin

section \<open>Shader manager (class ShaderManager)\<close>

text \<open>
  The class keeps the list of shader file names, the index of the current one and the
  table of preloaded sources. JavaScript numbers that hold indices are integers here;
  the remainder operator \<open>%\<close> of JavaScript truncates towards zero and takes the sign of
  the dividend, which \<open>js_rem\<close> writes out.
\<close>

record ShaderManager =
  shaders :: "string list"
  currentIndex :: int
  loadedShaders :: "string \<rightharpoonup> string"

definition new_ShaderManager :: ShaderManager where
  "new_ShaderManager = \<lparr> shaders = [], currentIndex = 0, loadedShaders = Map.empty \<rparr>"

definition js_rem :: "int \<Rightarrow> int \<Rightarrow> int" where
  "js_rem a b = sgn a * (\<bar>a\<bar> mod \<bar>b\<bar>)"

text \<open>
  \<open>shaders[i]\<close> is \<open>undefined\<close> (here \<open>None\<close>) outside the list. The object returned by
  \<open>getCurrentShader\<close> is the pair of its \<open>name\<close> and \<open>content\<close> fields; \<open>null\<close> is \<open>None\<close>.
\<close>

definition js_index :: "'a list \<Rightarrow> int \<Rightarrow> 'a option" where
  "js_index xs i = (if 0 \<le> i \<and> i < int (length xs) then Some (xs ! nat i) else None)"

definition getCurrentShader :: "ShaderManager \<Rightarrow> (string option \<times> string option) option" where
  "getCurrentShader m =
     (if length (shaders m) = 0 then None
      else (let name = js_index (shaders m) (currentIndex m)
            in Some (name, case name of None \<Rightarrow> None | Some n \<Rightarrow> loadedShaders m n)))"

definition nextShader ::
  "ShaderManager \<Rightarrow> (string option \<times> string option) option \<times> ShaderManager" where
  "nextShader m =
     (if length (shaders m) = 0 then (None, m)
      else (let m' = m\<lparr>currentIndex := js_rem (currentIndex m + 1) (int (length (shaders m)))\<rparr>
            in (getCurrentShader m', m')))"

definition previousShader ::
  "ShaderManager \<Rightarrow> (string option \<times> string option) option \<times> ShaderManager" where
  "previousShader m =
     (if length (shaders m) = 0 then (None, m)
      else (let m' = m\<lparr>currentIndex :=
                        js_rem (currentIndex m - 1 + int (length (shaders m)))
                               (int (length (shaders m)))\<rparr>
            in (getCurrentShader m', m')))"

definition setShaderByIndex ::
  "int \<Rightarrow> ShaderManager \<Rightarrow> (string option \<times> string option) option \<times> ShaderManager" where
  "setShaderByIndex index m =
     (if index \<ge> 0 \<and> index < int (length (shaders m))
      then (let m' = m\<lparr>currentIndex := index\<rparr> in (getCurrentShader m', m'))
      else (None, m))"

text \<open>Sequences of calls on the manager.\<close>

datatype manager_call = NextShader | PreviousShader | SetShaderByIndex int

fun manager_step :: "manager_call \<Rightarrow> ShaderManager \<Rightarrow> ShaderManager" where
  "manager_step NextShader m = snd (nextShader m)"
| "manager_step PreviousShader m = snd (previousShader m)"
| "manager_step (SetShaderByIndex i) m = snd (setShaderByIndex i m)"

fun manager_result ::
  "manager_call \<Rightarrow> ShaderManager \<Rightarrow> (string option \<times> string option) option" where
  "manager_result NextShader m = fst (nextShader m)"
| "manager_result PreviousShader m = fst (previousShader m)"
| "manager_result (SetShaderByIndex i) m = fst (setShaderByIndex i m)"

fun manager_run :: "manager_call list \<Rightarrow> ShaderManager \<Rightarrow> ShaderManager" where
  "manager_run [] m = m"
| "manager_run (c # cs) m = manager_run cs (manager_step c m)"

definition index_in_range :: "ShaderManager \<Rightarrow> bool" where
  "index_in_range m = (0 \<le> currentIndex m \<and> currentIndex m < int (length (shaders m)))"

definition names_existing :: "ShaderManager \<Rightarrow> bool" where
  "names_existing m =
     (case getCurrentShader m of
        Some (Some n, c) \<Rightarrow> n \<in> set (shaders m)
      | _ \<Rightarrow> False)"

section \<open>Direct shader selection from a MIDI note (ShaderMIDIApp.handleShaderChange)\<close>

text \<open>
  The application object is reduced to the manager and to what \<open>loadCurrentShader\<close> hands
  to the renderer and to the page: the name and content of the current shader, when
  \<open>getCurrentShader\<close> returned an object.

  The index is computed on JavaScript numbers, which are IEEE 754 doubles: a finite
  double is \<open>m * 2 ^ e\<close> for integers \<open>m\<close> and \<open>e\<close> with \<open>\<bar>m\<bar> < 2 ^ 53\<close> and
  \<open>- 1074 \<le> e \<le> 971\<close>. Division and multiplication return a double nearest to the exact
  result; which of two equally near doubles is taken is left open. The two operations
  are arguments of the model (\<open>js_div\<close>, \<open>js_mul\<close>), and \<open>rounds_correctly\<close> says that they
  return nearest doubles in the two places where \<open>Math.floor((data / 127) * maxShaders)\<close>
  uses them.
\<close>

record ShaderMIDIApp =
  shaderManager :: ShaderManager
  loaded :: "(string option \<times> string option) option"

datatype shader_action = ActNext | ActPrev | ActIndex int | ActOther

definition loadCurrentShader :: "ShaderMIDIApp \<Rightarrow> ShaderMIDIApp" where
  "loadCurrentShader a =
     (case getCurrentShader (shaderManager a) of
        None \<Rightarrow> a
      | Some sh \<Rightarrow> a\<lparr>loaded := Some sh\<rparr>)"

definition is_double :: "real \<Rightarrow> bool" where
  "is_double x =
     (\<exists>(m :: int) (e :: nat). \<bar>m\<bar> < 2 ^ 53 \<and>
        (e \<le> 971 \<and> x = of_int m * 2 ^ e \<or> e \<le> 1074 \<and> x = of_int m / 2 ^ e))"

definition nearest_double :: "real \<Rightarrow> real \<Rightarrow> bool" where
  "nearest_double d x = (is_double d \<and> (\<forall>y. is_double y \<longrightarrow> \<bar>d - x\<bar> \<le> \<bar>y - x\<bar>))"

definition shaderIndex ::
  "(real \<Rightarrow> real \<Rightarrow> real) \<Rightarrow> (real \<Rightarrow> real \<Rightarrow> real) \<Rightarrow> int \<Rightarrow> nat \<Rightarrow> int" where
  "shaderIndex js_div js_mul data maxShaders =
     \<lfloor>js_mul (js_div (of_int data) 127) (real maxShaders)\<rfloor>"

definition rounds_correctly ::
  "(real \<Rightarrow> real \<Rightarrow> real) \<Rightarrow> (real \<Rightarrow> real \<Rightarrow> real) \<Rightarrow> int \<Rightarrow> nat \<Rightarrow> bool" where
  "rounds_correctly js_div js_mul data maxShaders =
     (nearest_double (js_div (of_int data) 127) (of_int data / 127) \<and>
      nearest_double (js_mul (js_div (of_int data) 127) (real maxShaders))
        (js_div (of_int data) 127 * real maxShaders))"

fun handleShaderChange ::
  "(real \<Rightarrow> real \<Rightarrow> real) \<Rightarrow> (real \<Rightarrow> real \<Rightarrow> real) \<Rightarrow> shader_action \<Rightarrow>
   ShaderMIDIApp \<Rightarrow> ShaderMIDIApp" where
  "handleShaderChange js_div js_mul ActNext a =
     loadCurrentShader (a\<lparr>shaderManager := snd (nextShader (shaderManager a))\<rparr>)"
| "handleShaderChange js_div js_mul ActPrev a =
     loadCurrentShader (a\<lparr>shaderManager := snd (previousShader (shaderManager a))\<rparr>)"
| "handleShaderChange js_div js_mul (ActIndex data) a =
     (let maxShaders = length (shaders (shaderManager a));
          shaderIndex' = shaderIndex js_div js_mul data maxShaders
      in loadCurrentShader
           (a\<lparr>shaderManager := snd (setShaderByIndex shaderIndex' (shaderManager a))\<rparr>))"
| "handleShaderChange js_div js_mul ActOther a = loadCurrentShader a"

section \<open>Mask canvas and undo history (class ShaderRenderer)\<close>

text \<open>
  The mask is an offscreen canvas: a bitmap of \<open>width * height\<close> pixels, four bytes
  (R, G, B, A) per pixel in row-major order, as \<open>ImageData.data\<close> (a
  \<open>Uint8ClampedArray\<close>) presents it. Of the renderer only the fields of the mask are kept:
  the canvas bitmap, whether a 2d context was obtained (\<open>maskCtx\<close> is \<open>null\<close> otherwise),
  the \<open>needsUpdate\<close> flag of the mask texture (\<open>None\<close> while \<open>maskTexture\<close> is \<open>null\<close>),
  the history and its bound.
\<close>

type_synonym byte = "8 word"

record ImageData =
  width :: nat
  height :: nat
  data :: "byte list"

record ShaderRenderer =
  maskCanvas :: ImageData
  maskCtx :: bool
  maskTexture :: "bool option"
  maskHistory :: "ImageData list"
  maxHistory :: nat

definition wf_image :: "ImageData \<Rightarrow> bool" where
  "wf_image im = (length (data im) = 4 * width im * height im)"

text \<open>
  \<open>getImageData(0, 0, width, height)\<close> copies the whole bitmap. \<open>putImageData(imageData, 0, 0)\<close>
  writes the image over the canvas from the top-left corner, clipped to the canvas; the
  pixels of the canvas that the image does not cover stay as they are.
\<close>

definition getImageData :: "ImageData \<Rightarrow> ImageData" where
  "getImageData canvas =
     \<lparr> width = width canvas, height = height canvas, data = data canvas \<rparr>"

definition putImageData :: "ImageData \<Rightarrow> ImageData \<Rightarrow> ImageData" where
  "putImageData canvas imageData =
     canvas\<lparr>data :=
       map (\<lambda>i. let p = i div 4; k = i mod 4; x = p mod width canvas; y = p div width canvas
                in if x < width imageData \<and> y < height imageData \<and> y < height canvas
                   then data imageData ! ((y * width imageData + x) * 4 + k)
                   else data canvas ! i)
           [0..<length (data canvas)]\<rparr>"

text \<open>\<open>fillRect(0, 0, width, height)\<close> with \<open>fillStyle = 'white'\<close>: every byte becomes 255.\<close>

definition fillRect_white :: "ImageData \<Rightarrow> ImageData" where
  "fillRect_white canvas = canvas\<lparr>data := replicate (4 * width canvas * height canvas) 255\<rparr>"

definition set_needsUpdate :: "ShaderRenderer \<Rightarrow> ShaderRenderer" where
  "set_needsUpdate r =
     (case maskTexture r of None \<Rightarrow> r | Some _ \<Rightarrow> r\<lparr>maskTexture := Some True\<rparr>)"

definition saveToHistory :: "ShaderRenderer \<Rightarrow> ShaderRenderer" where
  "saveToHistory r =
     (if \<not> maskCtx r then r
      else (let imageData = getImageData (maskCanvas r);
                pushed = maskHistory r @ [imageData]
            in r\<lparr>maskHistory := (if length pushed > maxHistory r then tl pushed else pushed)\<rparr>))"

definition undoMask :: "ShaderRenderer \<Rightarrow> bool \<times> ShaderRenderer" where
  "undoMask r =
     (if \<not> maskCtx r \<or> length (maskHistory r) = 0 then (False, r)
      else (let imageData = last (maskHistory r);
                r1 = r\<lparr>maskHistory := butlast (maskHistory r)\<rparr>;
                r2 = r1\<lparr>maskCanvas := putImageData (maskCanvas r1) imageData\<rparr>
            in (True, set_needsUpdate r2)))"

definition clearMask :: "ShaderRenderer \<Rightarrow> ShaderRenderer" where
  "clearMask r =
     (if \<not> maskCtx r then r
      else (let r1 = saveToHistory r;
                r2 = r1\<lparr>maskCanvas := fillRect_white (maskCanvas r1)\<rparr>
            in set_needsUpdate r2))"

text \<open>
  A store into a \<open>Uint8ClampedArray\<close> clamps the number to \<open>0..255\<close>; a store beyond the
  end of the array is ignored, which is what list update does. The loop of \<open>invertMask\<close>
  advances by four and rewrites the first three bytes of each group.
\<close>

definition clamp8 :: "int \<Rightarrow> byte" where
  "clamp8 x = word_of_int (max 0 (min 255 x))"

definition inv8 :: "byte \<Rightarrow> byte" where
  "inv8 v = clamp8 (255 - uint v)"

function invert_loop :: "nat \<Rightarrow> byte list \<Rightarrow> byte list" where
  "invert_loop i d =
     (if i < length d
      then invert_loop (i + 4)
             (d[i := inv8 (d ! i), i + 1 := inv8 (d ! (i + 1)), i + 2 := inv8 (d ! (i + 2))])
      else d)"
  by pat_completeness auto
termination
  by (relation "measure (\<lambda>(i, d). length d - i)") auto

declare invert_loop.simps [simp del]

text \<open>
  What \<open>putImageData\<close> writes is not kept byte for byte: the canvas stores colours
  premultiplied by alpha. A pixel written with alpha 255 is read back as written, a pixel
  written with alpha 0 is read back as transparent black, and for the alphas in between
  the colour bytes that are read back depend on the browser's rounding, given here as a
  function \<open>requantise\<close> of the colour byte and the alpha. The bitmaps that \<open>undoMask\<close>
  writes were read from the canvas by \<open>saveToHistory\<close>; they are written as they are.
\<close>

fun read_back :: "(byte \<Rightarrow> byte \<Rightarrow> byte) \<Rightarrow> byte list \<Rightarrow> byte list" where
  "read_back requantise (r # g # b # a # rest) =
     (if a = 255 then [r, g, b, a]
      else if a = 0 then [0, 0, 0, 0]
      else [requantise r a, requantise g a, requantise b a, a]) @ read_back requantise rest"
| "read_back requantise d = d"

definition premultiplied :: "(byte \<Rightarrow> byte \<Rightarrow> byte) \<Rightarrow> ImageData \<Rightarrow> ImageData" where
  "premultiplied requantise imageData = imageData\<lparr>data := read_back requantise (data imageData)\<rparr>"

definition invertMask :: "(byte \<Rightarrow> byte \<Rightarrow> byte) \<Rightarrow> ShaderRenderer \<Rightarrow> ShaderRenderer" where
  "invertMask requantise r =
     (if \<not> maskCtx r then r
      else (let imageData = getImageData (maskCanvas r);
                imageData' = imageData\<lparr>data := invert_loop 0 (data imageData)\<rparr>;
                r1 = r\<lparr>maskCanvas :=
                        putImageData (maskCanvas r) (premultiplied requantise imageData')\<rparr>
            in set_needsUpdate r1))"

text \<open>A bitmap all of whose pixels are opaque: every fourth byte is 255.\<close>

fun opaque_data :: "byte list \<Rightarrow> bool" where
  "opaque_data (r # g # b # a # rest) = (a = 255 \<and> opaque_data rest)"
| "opaque_data d = True"

text \<open>
  \<open>drawOnMask\<close> fills a disc in black or white. Which bytes the rasteriser changes, and to
  what, is given as a function of the byte's position and old value.
\<close>

definition drawOnMask :: "(nat \<Rightarrow> byte \<Rightarrow> byte) \<Rightarrow> ShaderRenderer \<Rightarrow> ShaderRenderer" where
  "drawOnMask paint r =
     (if \<not> maskCtx r then r
      else set_needsUpdate
             (r\<lparr>maskCanvas :=
                  (maskCanvas r)\<lparr>data := map2 paint [0..<length (data (maskCanvas r))]
                                              (data (maskCanvas r))\<rparr>\<rparr>))"

text \<open>
  The constructor starts with no canvas (here the empty bitmap), an empty history and
  \<open>maxHistory = 10\<close>; \<open>initMaskCanvas\<close> creates a canvas of the window's size (transparent
  black), asks for its 2d context, clears the mask and creates the texture.
\<close>

definition initMaskCanvas :: "nat \<Rightarrow> nat \<Rightarrow> bool \<Rightarrow> ShaderRenderer \<Rightarrow> ShaderRenderer" where
  "initMaskCanvas innerWidth innerHeight has2d r =
     (let r1 = r\<lparr>maskCanvas := \<lparr> width = innerWidth, height = innerHeight,
                                   data = replicate (4 * innerWidth * innerHeight) 0 \<rparr>,
                   maskCtx := has2d\<rparr>;
          r2 = clearMask r1
      in r2\<lparr>maskTexture := Some True\<rparr>)"

definition new_ShaderRenderer :: "nat \<Rightarrow> nat \<Rightarrow> bool \<Rightarrow> ShaderRenderer" where
  "new_ShaderRenderer innerWidth innerHeight has2d =
     initMaskCanvas innerWidth innerHeight has2d
       \<lparr> maskCanvas = \<lparr> width = 0, height = 0, data = [] \<rparr>, maskCtx = False,
         maskTexture = None, maskHistory = [], maxHistory = 10 \<rparr>"

datatype mask_call =
  SaveToHistory | UndoMask | ClearMask | InvertMask "byte \<Rightarrow> byte \<Rightarrow> byte"
  | DrawOnMask "nat \<Rightarrow> byte \<Rightarrow> byte"

fun mask_step :: "mask_call \<Rightarrow> ShaderRenderer \<Rightarrow> ShaderRenderer" where
  "mask_step SaveToHistory r = saveToHistory r"
| "mask_step UndoMask r = snd (undoMask r)"
| "mask_step ClearMask r = clearMask r"
| "mask_step (InvertMask requantise) r = invertMask requantise r"
| "mask_step (DrawOnMask paint) r = drawOnMask paint r"

fun mask_run :: "mask_call list \<Rightarrow> ShaderRenderer \<Rightarrow> ShaderRenderer" where
  "mask_run [] r = r"
| "mask_run (c # cs) r = mask_run cs (mask_step c r)"

section \<open>The shader wrapper (ShaderRenderer.createShaderMaterial)\<close>

text \<open>
  \<open>createShaderMaterial\<close> builds the fragment shader with a JavaScript template literal: a
  sequence of literal pieces and substitutions, here the single substitution
  \<open>${fragmentShader}\<close>. Evaluating the literal concatenates the pieces, with the argument
  in place of each substitution. The literal text is kept line by line, each line ended by
  a newline, as it stands between the backquotes of the source.
\<close>

datatype template_part = Lit string | Subst

fun eval_template :: "template_part list \<Rightarrow> string \<Rightarrow> string" where
  "eval_template [] s = []"
| "eval_template (Lit t # ps) s = t @ eval_template ps s"
| "eval_template (Subst # ps) s = s @ eval_template ps s"

definition unlines_js :: "string list \<Rightarrow> string" where
  "unlines_js ls = concat (map (\<lambda>l. l @ ''\<newline>'') ls)"

record ShaderMaterial =
  vertexShader :: string
  fragmentShader :: string

definition vertexShader_text :: string where
  "vertexShader_text = ''\<newline>'' @ unlines_js
     [''            void main() {'',
      ''                gl_Position = vec4(position, 1.0);'',
      ''            }''] @ ''        ''"

text \<open>The wrapper of the full renderer: the text before the substitution.\<close>

definition wrapper_prefix_lines :: "string list" where
  "wrapper_prefix_lines =
    [''            uniform float iTime;'',
     ''            uniform vec2 iResolution;'',
     ''            uniform float iTimeDelta;'',
     ''            uniform int iFrame;'',
     '''',
     ''            // Global controls'',
     ''            uniform float u_vibrance;'',
     ''            uniform float u_hue;'',
     ''            uniform float u_saturation;'',
     ''            uniform float u_grayscale;'',
     ''            uniform float u_contrast;'',
     ''            uniform float u_brightness;'',
     ''            uniform float u_zoom;'',
     ''            uniform float u_speed;'',
     ''            uniform float u_mirror;'',
     ''            uniform float u_videoMix;'',
     ''            uniform float u_audioIntensity;'',
     ''            uniform float u_audioToHue;'',
     ''            uniform float u_audioToSaturation;'',
     ''            uniform float u_audioToBrightness;'',
     ''            uniform float u_audioToZoom;'',
     ''            uniform float u_mirrorSplit;'',
     ''            uniform float u_mirrorSegments;'',
     '''',
     ''            // Perspective transform corners (normalized 0-1)'',
     ''            uniform vec2 u_perspTL;  // Top-left'',
     ''            uniform vec2 u_perspTR;  // Top-right'',
     ''            uniform vec2 u_perspBL;  // Bottom-left'',
     ''            uniform vec2 u_perspBR;  // Bottom-right'',
     ''            uniform bool u_perspActive;'',
     '''',
     ''            // Video and audio'',
     ''            uniform sampler2D u_videoTexture;'',
     ''            uniform bool u_hasVideo;'',
     ''            uniform float u_audioBass;'',
     ''            uniform float u_audioMid;'',
     ''            uniform float u_audioTreble;'',
     '''',
     ''            // Mask for edit mode'',
     ''            uniform sampler2D u_maskTexture;'',
     ''            uniform bool u_hasMask;'',
     '''',
     ''            // RGB to HSL conversion'',
     ''            vec3 rgb2hsl(vec3 color) {'',
     ''                float maxc = max(max(color.r, color.g), color.b);'',
     ''                float minc = min(min(color.r, color.g), color.b);'',
     ''                float l = (maxc + minc) / 2.0;'',
     '''',
     ''                if (maxc == minc) {'',
     ''                    return vec3(0.0, 0.0, l);'',
     ''                }'',
     '''',
     ''                float delta = maxc - minc;'',
     ''                float s = l > 0.5 ? delta / (2.0 - maxc - minc) : delta / (maxc + minc);'',
     '''',
     ''                float h;'',
     ''                if (color.r == maxc) {'',
     ''                    h = (color.g - color.b) / delta + (color.g < color.b ? 6.0 : 0.0);'',
     ''                } else if (color.g == maxc) {'',
     ''                    h = (color.b - color.r) / delta + 2.0;'',
     ''                } else {'',
     ''                    h = (color.r - color.g) / delta + 4.0;'',
     ''                }'',
     ''                h /= 6.0;'',
     '''',
     ''                return vec3(h, s, l);'',
     ''            }'',
     '''',
     ''            // HSL to RGB conversion'',
     ''            vec3 hsl2rgb(vec3 hsl) {'',
     ''                float h = hsl.x;'',
     ''                float s = hsl.y;'',
     ''                float l = hsl.z;'',
     '''',
     ''                float c = (1.0 - abs(2.0 * l - 1.0)) * s;'',
     ''                float x = c * (1.0 - abs(mod(h * 6.0, 2.0) - 1.0));'',
     ''                float m = l - c / 2.0;'',
     '''',
     ''                vec3 rgb;'',
     ''                if (h < 1.0/6.0) rgb = vec3(c, x, 0.0);'',
     ''                else if (h < 2.0/6.0) rgb = vec3(x, c, 0.0);'',
     ''                else if (h < 3.0/6.0) rgb = vec3(0.0, c, x);'',
     ''                else if (h < 4.0/6.0) rgb = vec3(0.0, x, c);'',
     ''                else if (h < 5.0/6.0) rgb = vec3(x, 0.0, c);'',
     ''                else rgb = vec3(c, 0.0, x);'',
     '''',
     ''                return rgb + m;'',
     ''            }'',
     '''',
     ''            // Check if point is inside a quad using cross products'',
     ''            float crossSign(vec2 a, vec2 b, vec2 p) {'',
     ''                return (b.x - a.x) * (p.y - a.y) - (b.y - a.y) * (p.x - a.x);'',
     ''            }'',
     '''',
     ''            bool pointInQuad(vec2 p, vec2 tl, vec2 tr, vec2 br, vec2 bl) {'',
     ''                // Check if point is on the same side of all edges'',
     ''                float d1 = crossSign(tl, tr, p);'',
     ''                float d2 = crossSign(tr, br, p);'',
     ''                float d3 = crossSign(br, bl, p);'',
     ''                float d4 = crossSign(bl, tl, p);'',
     '''',
     ''                bool hasNeg = (d1 < 0.0) || (d2 < 0.0) || (d3 < 0.0) || (d4 < 0.0);'',
     ''                bool hasPos = (d1 > 0.0) || (d2 > 0.0) || (d3 > 0.0) || (d4 > 0.0);'',
     '''',
     ''                return !(hasNeg && hasPos);'',
     ''            }'',
     '''']"

definition wrapper_prefix :: string where
  "wrapper_prefix = ''\<newline>'' @ unlines_js wrapper_prefix_lines @ ''            ''"

text \<open>The wrapper of the full renderer: the text after the substitution.\<close>

definition wrapper_suffix_lines :: "string list" where
  "wrapper_suffix_lines =
    ['''',
     ''            void main() {'',
     ''                vec2 fragCoord = gl_FragCoord.xy;'',
     ''                vec2 screenUV = fragCoord / iResolution.xy;'',
     '''',
     ''                // Calculate audio modulation (bass is most impactful)'',
     ''                float audioMod = u_audioBass;'',
     '''',
     ''                // Apply zoom with audio modulation'',
     ''                float dynamicZoom = u_zoom + (audioMod * u_audioToZoom * 2.0);'',
     ''                vec2 center = iResolution.xy * 0.5;'',
     ''                fragCoord = (fragCoord - center) / dynamicZoom + center;'',
     '''',
     ''                // Apply perspective transformation first'',
     ''                bool outsidePerspective = false;'',
     ''                if (u_perspActive) {'',
     ''                    // Screen UV: (0,0) = bottom-left in WebGL, but our corners use (0,0) = top-left'',
     ''                    // So we need to flip Y for the check'',
     ''                    vec2 checkUV = vec2(screenUV.x, 1.0 - screenUV.y);'',
     '''',
     ''                    // Check if screen point is inside the perspective quad'',
     ''                    if (!pointInQuad(checkUV, u_perspTL, u_perspTR, u_perspBR, u_perspBL)) {'',
     ''                        outsidePerspective = true;'',
     ''                    }'',
     '''',
     ''                    // Bilinear interpolation for perspective correction'',
     ''                    // Map from screen position to texture position'',
     ''                    vec2 uv = fragCoord / iResolution.xy;'',
     ''                    // Flip Y to match our screen coordinate system'',
     ''                    float screenY = 1.0 - uv.y;'',
     '''',
     ''                    // Interpolate: top edge at screenY=0, bottom edge at screenY=1'',
     ''                    vec2 topInterp = mix(u_perspTL, u_perspTR, uv.x);'',
     ''                    vec2 bottomInterp = mix(u_perspBL, u_perspBR, uv.x);'',
     ''                    vec2 perspUV = mix(topInterp, bottomInterp, screenY);'',
     '''',
     ''                    // Convert back to shader coords (flip Y back)'',
     ''                    perspUV.y = 1.0 - perspUV.y;'',
     '''',
     ''                    fragCoord = perspUV * iResolution.xy;'',
     ''                }'',
     '''',
     ''                // Apply mirror/kaleidoscope effect (always from center)'',
     ''                if (u_mirror > 0.5) {'',
     ''                    // Convert to centered coordinates'',
     ''                    vec2 centered = fragCoord - center;'',
     '''',
     ''                    if (u_mirrorSegments > 2.0) {'',
     ''                        // Kaleidoscope mode: mirror in circular segments'',
     ''                        float angle = atan(centered.y, centered.x);'',
     ''                        float radius = length(centered);'',
     '''',
     ''                        // Calculate segment angle based on number of segments'',
     ''                        float segmentAngle = 3.14159265 * 2.0 / u_mirrorSegments;'',
     '''',
     ''                        // Fold angle into first segment'',
     ''                        angle = mod(angle, segmentAngle);'',
     '''',
     ''                        // Mirror within segment (creates kaleidoscope effect)'',
     ''                        if (angle > segmentAngle * 0.5) {'',
     ''                            angle = segmentAngle - angle;'',
     ''                        }'',
     '''',
     ''                        // Convert back to cartesian'',
     ''                        centered = vec2(cos(angle), sin(angle)) * radius;'',
     ''                    } else {'',
     ''                        // Simple mirror from center'',
     ''                        // CC0 shifts the source horizontally (where to sample from)'',
     ''                        float sourceShift = (u_mirrorSplit - 0.5) * center.x * 2.0;'',
     '''',
     ''                        // Mirror: right side shows flipped left side'',
     ''                        if (centered.x > 0.0) {'',
     ''                            centered.x = -centered.x;'',
     ''                        }'',
     '''',
     ''                        // Apply source shift'',
     ''                        centered.x = centered.x + sourceShift;'',
     ''                    }'',
     '''',
     ''                    fragCoord = centered + center;'',
     ''                }'',
     '''',
     ''                vec4 color = vec4(0.0);'',
     '''',
     ''                // Call the user's mainImage function with modified coordinates'',
     ''                mainImage(color, fragCoord);'',
     '''',
     ''                vec3 finalColor = color.rgb;'',
     '''',
     ''                // Apply brightness with audio modulation'',
     ''                float dynamicBrightness = u_brightness + (audioMod * u_audioToBrightness);'',
     ''                finalColor *= dynamicBrightness;'',
     '''',
     ''                // Apply contrast'',
     ''                finalColor = (finalColor - 0.5) * u_contrast + 0.5;'',
     '''',
     ''                // Apply global color transformations via HSL'',
     ''                vec3 hsl = rgb2hsl(finalColor);'',
     '''',
     ''                // Apply hue rotation with audio modulation'',
     ''                float dynamicHue = u_hue + (audioMod * u_audioToHue * 360.0);'',
     ''                hsl.x = mod(hsl.x + dynamicHue / 360.0, 1.0);'',
     '''',
     ''                // Apply saturation adjustment with audio modulation'',
     ''                float dynamicSaturation = u_saturation + (audioMod * u_audioToSaturation);'',
     ''                hsl.y *= clamp(dynamicSaturation, 0.0, 2.0);'',
     '''',
     ''                // Apply vibrance (boost less saturated colors more)'',
     ''                float satBoost = (1.0 - hsl.y) * u_vibrance;'',
     ''                hsl.y = clamp(hsl.y + satBoost, 0.0, 1.0);'',
     '''',
     ''                finalColor = hsl2rgb(hsl);'',
     '''',
     ''                // Apply grayscale'',
     ''                float gray = dot(finalColor, vec3(0.299, 0.587, 0.114));'',
     ''                finalColor = mix(finalColor, vec3(gray), u_grayscale);'',
     '''',
     ''                // Mix with video texture if available'',
     ''                if (u_hasVideo && u_videoMix > 0.0) {'',
     ''                    vec2 videoUV = gl_FragCoord.xy / iResolution.xy;'',
     ''                    videoUV.y = 1.0 - videoUV.y; // Flip Y coordinate'',
     ''                    vec3 videoColor = texture2D(u_videoTexture, videoUV).rgb;'',
     ''                    finalColor = mix(finalColor, videoColor, u_videoMix);'',
     ''                }'',
     '''',
     ''                // Apply mask if active'',
     ''                float maskAlpha = 1.0;'',
     ''                if (u_hasMask) {'',
     ''                    vec2 maskUV = gl_FragCoord.xy / iResolution.xy;'',
     ''                    maskUV.y = 1.0 - maskUV.y; // Flip Y coordinate'',
     ''                    maskAlpha = texture2D(u_maskTexture, maskUV).r;'',
     ''                }'',
     '''',
     ''                // Black outside perspective area'',
     ''                if (outsidePerspective) {'',
     ''                    gl_FragColor = vec4(0.0, 0.0, 0.0, 1.0);'',
     ''                    return;'',
     ''                }'',
     '''',
     ''                gl_FragColor = vec4(finalColor * maskAlpha, color.a * maskAlpha);'',
     ''            }'']"

definition wrapper_suffix :: string where
  "wrapper_suffix = ''\<newline>'' @ unlines_js wrapper_suffix_lines @ ''        ''"

definition wrapped_template :: "template_part list" where
  "wrapped_template = [Lit wrapper_prefix, Subst, Lit wrapper_suffix]"

definition createShaderMaterial :: "string \<Rightarrow> ShaderMaterial" where
  "createShaderMaterial fragmentShader' =
     (let wrappedFragmentShader = eval_template wrapped_template fragmentShader'
      in \<lparr> vertexShader = vertexShader_text, fragmentShader = wrappedFragmentShader \<rparr>)"

text \<open>The earlier renderer of \<open>main.js\<close> wraps the shader in the same way, with a shorter text.\<close>

definition main_wrapper_prefix_lines :: "string list" where
  "main_wrapper_prefix_lines =
    [''            uniform float iTime;'',
     ''            uniform vec2 iResolution;'',
     ''            uniform float iTimeDelta;'',
     ''            uniform int iFrame;'',
     '''',
     ''            // Global color controls'',
     ''            uniform float u_hue;'',
     ''            uniform float u_saturation;'',
     ''            uniform float u_lightness;'',
     ''            uniform float u_monochrome;'',
     '''',
     ''            // RGB to HSL conversion'',
     ''            vec3 rgb2hsl(vec3 color) {'',
     ''                float maxc = max(max(color.r, color.g), color.b);'',
     ''                float minc = min(min(color.r, color.g), color.b);'',
     ''                float l = (maxc + minc) / 2.0;'',
     '''',
     ''                if (maxc == minc) {'',
     ''                    return vec3(0.0, 0.0, l);'',
     ''                }'',
     '''',
     ''                float delta = maxc - minc;'',
     ''                float s = l > 0.5 ? delta / (2.0 - maxc - minc) : delta / (maxc + minc);'',
     '''',
     ''                float h;'',
     ''                if (color.r == maxc) {'',
     ''                    h = (color.g - color.b) / delta + (color.g < color.b ? 6.0 : 0.0);'',
     ''                } else if (color.g == maxc) {'',
     ''                    h = (color.b - color.r) / delta + 2.0;'',
     ''                } else {'',
     ''                    h = (color.r - color.g) / delta + 4.0;'',
     ''                }'',
     ''                h /= 6.0;'',
     '''',
     ''                return vec3(h, s, l);'',
     ''            }'',
     '''',
     ''            // HSL to RGB conversion'',
     ''            vec3 hsl2rgb(vec3 hsl) {'',
     ''                float h = hsl.x;'',
     ''                float s = hsl.y;'',
     ''                float l = hsl.z;'',
     '''',
     ''                float c = (1.0 - abs(2.0 * l - 1.0)) * s;'',
     ''                float x = c * (1.0 - abs(mod(h * 6.0, 2.0) - 1.0));'',
     ''                float m = l - c / 2.0;'',
     '''',
     ''                vec3 rgb;'',
     ''                if (h < 1.0/6.0) rgb = vec3(c, x, 0.0);'',
     ''                else if (h < 2.0/6.0) rgb = vec3(x, c, 0.0);'',
     ''                else if (h < 3.0/6.0) rgb = vec3(0.0, c, x);'',
     ''                else if (h < 4.0/6.0) rgb = vec3(0.0, x, c);'',
     ''                else if (h < 5.0/6.0) rgb = vec3(x, 0.0, c);'',
     ''                else rgb = vec3(c, 0.0, x);'',
     '''',
     ''                return rgb + m;'',
     ''            }'',
     '''']"

definition main_wrapper_prefix :: string where
  "main_wrapper_prefix = ''\<newline>'' @ unlines_js main_wrapper_prefix_lines @ ''            ''"

definition main_wrapper_suffix_lines :: "string list" where
  "main_wrapper_suffix_lines =
    ['''',
     ''            void main() {'',
     ''                vec4 color = vec4(0.0);'',
     '''',
     ''                // Call the user's mainImage function'',
     ''                mainImage(color, gl_FragCoord.xy);'',
     '''',
     ''                // Apply global color transformations'',
     ''                vec3 hsl = rgb2hsl(color.rgb);'',
     '''',
     ''                // Apply hue rotation'',
     ''                hsl.x = mod(hsl.x + u_hue / 360.0, 1.0);'',
     '''',
     ''                // Apply saturation adjustment'',
     ''                hsl.y *= u_saturation;'',
     '''',
     ''                // Apply lightness adjustment'',
     ''                hsl.z *= u_lightness;'',
     '''',
     ''                vec3 finalColor = hsl2rgb(hsl);'',
     '''',
     ''                // Apply monochrome effect'',
     ''                float gray = dot(finalColor, vec3(0.299, 0.587, 0.114));'',
     ''                finalColor = mix(finalColor, vec3(gray), u_monochrome);'',
     '''',
     ''                gl_FragColor = vec4(finalColor, color.a);'',
     ''            }'']"

definition main_wrapper_suffix :: string where
  "main_wrapper_suffix = ''\<newline>'' @ unlines_js main_wrapper_suffix_lines @ ''        ''"

definition main_wrapped_template :: "template_part list" where
  "main_wrapped_template = [Lit main_wrapper_prefix, Subst, Lit main_wrapper_suffix]"

definition main_createShaderMaterial :: "string \<Rightarrow> ShaderMaterial" where
  "main_createShaderMaterial fragmentShader' =
     (let wrappedFragmentShader = eval_template main_wrapped_template fragmentShader'
      in \<lparr> vertexShader = vertexShader_text, fragmentShader = wrappedFragmentShader \<rparr>)"

text \<open>
  Occurrences of a string in another: \<open>occurs_at s t i\<close> says that \<open>s\<close> stands in \<open>t\<close> at
  offset \<open>i\<close>; \<open>occurrences s t\<close> lists all such offsets.
\<close>

definition occurs_at :: "string \<Rightarrow> string \<Rightarrow> nat \<Rightarrow> bool" where
  "occurs_at s t i = (i + length s \<le> length t \<and> take (length s) (drop i t) = s)"

definition occurrences :: "string \<Rightarrow> string \<Rightarrow> nat list" where
  "occurrences s t = filter (occurs_at s t) [0..<Suc (length t)]"

section \<open>Camera input (class VideoInputManager)\<close>

text \<open>
  The manager's fields are kept as they are; a media stream and a texture are identified
  by a number. The page's \<open>select\<close> element is its list of option values and its selected
  value: assigning a \<open>value\<close> that no option has leaves nothing selected (the value reads
  as the empty string). The calls of the callback \<open>onVideoReady\<close>, which hands a texture (or
  \<open>null\<close>) to the renderer, and the \<open>alert\<close> messages are recorded in the order they are made.
  What the browser answers to \<open>getUserMedia\<close> and \<open>enumerateDevices\<close> is an argument: \<open>Inl\<close>
  the error thrown, \<open>Inr\<close> the result. The asynchronous functions are run to completion,
  one after the other.
\<close>

record MediaDeviceInfo =
  deviceId :: string
  kind :: string
  label :: string

record js_error =
  name :: string
  message :: string















section \<open>The post-processing stage of the wrapper, over the reals\<close>

text \<open>
  The helper functions and the coordinate remapping of the wrapper's \<open>main\<close> are GLSL code
  inside the template text. They are embedded with GLSL's \<open>float\<close> read as a real number:
  the statements below are about the formulae, in exact arithmetic. A \<open>vec2\<close> is a pair,
  a \<open>vec3\<close> a triple.
\<close>

subsection \<open>Point in quad\<close>

type_synonym vec2 = "real \<times> real"

definition crossSign :: "vec2 \<Rightarrow> vec2 \<Rightarrow> vec2 \<Rightarrow> real" where
  "crossSign a b p = (fst b - fst a) * (snd p - snd a) - (snd b - snd a) * (fst p - fst a)"

definition pointInQuad :: "vec2 \<Rightarrow> vec2 \<Rightarrow> vec2 \<Rightarrow> vec2 \<Rightarrow> vec2 \<Rightarrow> bool" where
  "pointInQuad p tl' tr' br' bl' =
     (let d1 = crossSign tl' tr' p;
          d2 = crossSign tr' br' p;
          d3 = crossSign br' bl' p;
          d4 = crossSign bl' tl' p;
          hasNeg = (d1 < 0 \<or> d2 < 0 \<or> d3 < 0 \<or> d4 < 0);
          hasPos = (d1 > 0 \<or> d2 > 0 \<or> d3 > 0 \<or> d4 > 0)
      in \<not> (hasNeg \<and> hasPos))"

text \<open>
  The closed quadrilateral is the set of convex combinations of its corners. The corners
  are in counterclockwise order (for the orientation in which \<open>crossSign\<close> is positive on
  left turns) when none of the four corners is a right turn and the area, half of
  \<open>crossSign tl tr br + crossSign br bl tl\<close>, is positive; a convex quadrilateral in a
  consistent winding order is one whose corners are in counterclockwise order, read
  forwards or backwards.
\<close>

definition in_closed_quad :: "vec2 \<Rightarrow> vec2 \<Rightarrow> vec2 \<Rightarrow> vec2 \<Rightarrow> vec2 \<Rightarrow> bool" where
  "in_closed_quad p tl' tr' br' bl' =
     (\<exists>a b c d. 0 \<le> a \<and> 0 \<le> b \<and> 0 \<le> c \<and> 0 \<le> d \<and> a + b + c + d = 1 \<and>
        fst p = a * fst tl' + b * fst tr' + c * fst br' + d * fst bl' \<and>
        snd p = a * snd tl' + b * snd tr' + c * snd br' + d * snd bl')"

definition counterclockwise :: "vec2 \<Rightarrow> vec2 \<Rightarrow> vec2 \<Rightarrow> vec2 \<Rightarrow> bool" where
  "counterclockwise tl' tr' br' bl' =
     (0 \<le> crossSign tl' tr' br' \<and> 0 \<le> crossSign tr' br' bl' \<and>
      0 \<le> crossSign br' bl' tl' \<and> 0 \<le> crossSign bl' tl' tr' \<and>
      0 < crossSign tl' tr' br' + crossSign br' bl' tl')"

definition convex_quad :: "vec2 \<Rightarrow> vec2 \<Rightarrow> vec2 \<Rightarrow> vec2 \<Rightarrow> bool" where
  "convex_quad tl' tr' br' bl' = (counterclockwise tl' tr' br' bl' \<or> counterclockwise bl' br' tr' tl')"

subsection \<open>HSL conversions\<close>

text \<open>
  \<open>rgb2hsl\<close> and \<open>hsl2rgb\<close> have the same text in the wrapper of the full renderer and in
  that of \<open>main.js\<close>. GLSL's \<open>mod(x, y)\<close> is \<open>x - y * floor(x / y)\<close>.
\<close>

type_synonym vec3 = "real \<times> real \<times> real"

definition glsl_mod :: "real \<Rightarrow> real \<Rightarrow> real" where
  "glsl_mod x y = x - y * of_int \<lfloor>x / y\<rfloor>"

definition rgb2hsl :: "vec3 \<Rightarrow> vec3" where
  "rgb2hsl color =
     (case color of (r, g, b) \<Rightarrow>
        (let maxc = max (max r g) b;
             minc = min (min r g) b;
             l = (maxc + minc) / 2
         in if maxc = minc then (0, 0, l)
            else (let delta = maxc - minc;
                      s = (if l > 0.5 then delta / (2 - maxc - minc) else delta / (maxc + minc));
                      h = (if r = maxc then (g - b) / delta + (if g < b then 6 else 0)
                           else if g = maxc then (b - r) / delta + 2
                           else (r - g) / delta + 4)
                  in (h / 6, s, l))))"

definition hsl2rgb :: "vec3 \<Rightarrow> vec3" where
  "hsl2rgb hsl =
     (case hsl of (h, s, l) \<Rightarrow>
        (let c = (1 - \<bar>2 * l - 1\<bar>) * s;
             x = c * (1 - \<bar>glsl_mod (h * 6) 2 - 1\<bar>);
             m = l - c / 2;
             rgb = (if h < 1 / 6 then (c, x, 0)
                    else if h < 2 / 6 then (x, c, 0)
                    else if h < 3 / 6 then (0, c, x)
                    else if h < 4 / 6 then (0, x, c)
                    else if h < 5 / 6 then (x, 0, c)
                    else (c, 0, x))
         in (case rgb of (r, g, b) \<Rightarrow> (r + m, g + m, b + m))))"

text \<open>A colour whose three components lie in \<open>[0, 1]\<close>.\<close>

definition unit_color :: "vec3 \<Rightarrow> bool" where
  "unit_color color =
     (case color of (r, g, b) \<Rightarrow> 0 \<le> r \<and> r \<le> 1 \<and> 0 \<le> g \<and> g \<le> 1 \<and> 0 \<le> b \<and> b \<le> 1)"

text \<open>
  What \<open>hsl2rgb\<close> computes, as a function of the hue scaled to \<open>[0, 6)\<close>, the chroma \<open>c\<close> and
  the offset \<open>m\<close> (used in the proofs only).
\<close>

definition sextant :: "real \<Rightarrow> real \<Rightarrow> real \<Rightarrow> vec3" where
  "sextant t c m =
     (let x = c * (1 - \<bar>glsl_mod t 2 - 1\<bar>)
      in if t < 1 then (c + m, x + m, m)
         else if t < 2 then (x + m, c + m, m)
         else if t < 3 then (m, c + m, x + m)
         else if t < 4 then (m, x + m, c + m)
         else if t < 5 then (x + m, m, c + m)
         else (c + m, m, x + m))"

subsection \<open>Mirror and kaleidoscope\<close>

text \<open>
  The mirror block of the wrapper's \<open>main\<close>, as a function of the uniforms, the screen centre
  and the fragment coordinate it rewrites. GLSL's two-argument \<open>atan(y, x)\<close> is the angle of
  the point \<open>(x, y)\<close> in \<open>[-pi, pi]\<close>; its result at the origin is undefined, so the value
  there is an argument (\<open>undef\<close>). \<open>length\<close> is the Euclidean norm. The segment angle is
  computed with the literal \<open>3.14159265\<close>, as in the source.
\<close>

definition glsl_atan :: "real \<Rightarrow> real \<Rightarrow> real \<Rightarrow> real" where
  "glsl_atan undef y x =
     (if x > 0 then arctan (y / x)
      else if x < 0 then (if y \<ge> 0 then arctan (y / x) + pi else arctan (y / x) - pi)
      else if y > 0 then pi / 2
      else if y < 0 then - pi / 2
      else undef)"

definition glsl_length :: "vec2 \<Rightarrow> real" where
  "glsl_length v = sqrt (fst v * fst v + snd v * snd v)"

definition segmentAngle :: "real \<Rightarrow> real" where
  "segmentAngle u_mirrorSegments = 3.14159265 * 2.0 / u_mirrorSegments"

definition folded_angle :: "real \<Rightarrow> real \<Rightarrow> vec2 \<Rightarrow> real" where
  "folded_angle undef u_mirrorSegments centered =
     (let angle = glsl_atan undef (snd centered) (fst centered);
          angle = glsl_mod angle (segmentAngle u_mirrorSegments)
      in if angle > segmentAngle u_mirrorSegments * 0.5
         then segmentAngle u_mirrorSegments - angle else angle)"

definition mirror_stage :: "real \<Rightarrow> real \<Rightarrow> real \<Rightarrow> real \<Rightarrow> vec2 \<Rightarrow> vec2 \<Rightarrow> vec2" where
  "mirror_stage undef u_mirror u_mirrorSegments u_mirrorSplit center fragCoord =
     (if u_mirror > 0.5
      then (let centered = (fst fragCoord - fst center, snd fragCoord - snd center);
                centered =
                  (if u_mirrorSegments > 2.0
                   then (let angle = folded_angle undef u_mirrorSegments centered;
                             radius = glsl_length centered
                         in (cos angle * radius, sin angle * radius))
                   else (let sourceShift = (u_mirrorSplit - 0.5) * fst center * 2.0;
                             x = (if fst centered > 0.0 then - fst centered else fst centered)
                         in (x + sourceShift, snd centered)))
            in (fst centered + fst center, snd centered + snd center))
      else fragCoord)"

text \<open>The distance of a coordinate from the screen centre.\<close>

definition distance_from :: "vec2 \<Rightarrow> vec2 \<Rightarrow> real" where
  "distance_from center v = glsl_length (fst v - fst center, snd v - snd center)"
section \<open>Properties of the shader manager\<close>

lemma js_rem_nonneg: "0 \<le> a \<Longrightarrow> 0 < b \<Longrightarrow> js_rem a b = a mod b"
  by (cases "a = 0") (simp_all add: js_rem_def)

lemma nextShader_range:
  "shaders m \<noteq> [] \<Longrightarrow> index_in_range m \<Longrightarrow> index_in_range (snd (nextShader m))"
  by (simp add: nextShader_def index_in_range_def Let_def js_rem_nonneg)

lemma previousShader_range:
  "shaders m \<noteq> [] \<Longrightarrow> index_in_range m \<Longrightarrow> index_in_range (snd (previousShader m))"
  by (simp add: previousShader_def index_in_range_def Let_def js_rem_nonneg)

lemma setShaderByIndex_range:
  "index_in_range m \<Longrightarrow> index_in_range (snd (setShaderByIndex i m))"
  by (simp add: setShaderByIndex_def index_in_range_def Let_def)

lemma manager_step_shaders: "shaders (manager_step c m) = shaders m"
  by (cases c) (simp_all add: nextShader_def previousShader_def setShaderByIndex_def Let_def)

lemma manager_step_range:
  "shaders m \<noteq> [] \<Longrightarrow> index_in_range m \<Longrightarrow> index_in_range (manager_step c m)"
  by (cases c) (simp_all add: nextShader_range previousShader_range setShaderByIndex_range)

lemma manager_run_shaders: "shaders (manager_run cs m) = shaders m"
  by (induction cs arbitrary: m) (simp_all add: manager_step_shaders)

lemma manager_run_range:
  "shaders m \<noteq> [] \<Longrightarrow> index_in_range m \<Longrightarrow> index_in_range (manager_run cs m)"
proof (induction cs arbitrary: m)
  case Nil
  then show ?case by simp
next
  case (Cons c cs)
  have "shaders (manager_step c m) \<noteq> []"
    using Cons.prems(1) by (simp add: manager_step_shaders)
  moreover have "index_in_range (manager_step c m)"
    using Cons.prems by (rule manager_step_range)
  ultimately show ?case
    using Cons.IH by simp
qed

lemma range_names_existing: "index_in_range m \<Longrightarrow> names_existing m"
  by (auto simp add: index_in_range_def names_existing_def getCurrentShader_def js_index_def
      Let_def)

lemma manager_step_empty:
  "shaders m = [] \<Longrightarrow> manager_step c m = m \<and> manager_result c m = None"
  by (cases c) (auto simp add: nextShader_def previousShader_def setShaderByIndex_def)

lemma manager_run_empty: "shaders m = [] \<Longrightarrow> manager_run cs m = m"
  by (induction cs) (simp_all add: manager_step_empty)

text \<open>
  Claim C9. On a non-empty shader list the index stays within \<open>0 \<le> currentIndex < length\<close>
  under every sequence of \<open>nextShader\<close>, \<open>previousShader\<close> and \<open>setShaderByIndex\<close> calls
  (the list itself is not changed), so \<open>getCurrentShader\<close> names a shader of the list;
  on an empty list each of the three calls returns \<open>null\<close> and changes nothing, so the
  index of a freshly constructed manager stays 0.
\<close>

theorem shader_manager_index_invariant:
  "(shaders m \<noteq> [] \<and> index_in_range m \<longrightarrow>
      index_in_range (manager_run cs m) \<and> shaders (manager_run cs m) = shaders m \<and>
      names_existing (manager_run cs m))
   \<and> index_in_range (new_ShaderManager\<lparr>shaders := n # ns\<rparr>)
   \<and> (shaders e = [] \<longrightarrow>
        nextShader e = (None, e) \<and> previousShader e = (None, e) \<and>
        setShaderByIndex i e = (None, e) \<and> manager_run cs e = e)
   \<and> currentIndex (manager_run cs new_ShaderManager) = 0"
proof -
  have a: "shaders m \<noteq> [] \<and> index_in_range m \<longrightarrow>
      index_in_range (manager_run cs m) \<and> shaders (manager_run cs m) = shaders m \<and>
      names_existing (manager_run cs m)"
    by (simp add: manager_run_range manager_run_shaders range_names_existing)
  have b: "index_in_range (new_ShaderManager\<lparr>shaders := n # ns\<rparr>)"
    by (simp add: index_in_range_def new_ShaderManager_def)
  have c: "shaders e = [] \<longrightarrow>
        nextShader e = (None, e) \<and> previousShader e = (None, e) \<and>
        setShaderByIndex i e = (None, e) \<and> manager_run cs e = e"
    by (auto simp add: nextShader_def previousShader_def setShaderByIndex_def manager_run_empty)
  have "manager_run cs new_ShaderManager = new_ShaderManager"
    by (rule manager_run_empty) (simp add: new_ShaderManager_def)
  then have d: "currentIndex (manager_run cs new_ShaderManager) = 0"
    by (simp add: new_ShaderManager_def)
  from a b c d show ?thesis by blast
qed

theorem shader_manager_index_invariant_witness:
  "shaders (new_ShaderManager\<lparr>shaders := [''a.glsl'', ''b.glsl'', ''c.glsl'']\<rparr>) \<noteq> []
   \<and> index_in_range (new_ShaderManager\<lparr>shaders := [''a.glsl'', ''b.glsl'', ''c.glsl'']\<rparr>)
   \<and> shaders new_ShaderManager = []
   \<and> index_in_range
        (manager_run [PreviousShader, SetShaderByIndex 5, NextShader, NextShader]
           (new_ShaderManager\<lparr>shaders := [''a.glsl'', ''b.glsl'', ''c.glsl'']\<rparr>))
   \<and> names_existing
        (manager_run [PreviousShader, SetShaderByIndex 5, NextShader, NextShader]
           (new_ShaderManager\<lparr>shaders := [''a.glsl'', ''b.glsl'', ''c.glsl'']\<rparr>))
   \<and> nextShader new_ShaderManager = (None, new_ShaderManager)
   \<and> setShaderByIndex 0 new_ShaderManager = (None, new_ShaderManager)"
  using shader_manager_index_invariant
    [of "new_ShaderManager\<lparr>shaders := [''a.glsl'', ''b.glsl'', ''c.glsl'']\<rparr>"
        "[PreviousShader, SetShaderByIndex 5, NextShader, NextShader]"
        "''a.glsl''" "[''b.glsl'', ''c.glsl'']" new_ShaderManager 0]
  by (simp add: new_ShaderManager_def)

section \<open>Properties of direct shader selection\<close>

subsection \<open>Doubles and nearest doubles\<close>

lemma is_double_of_int: "\<bar>k\<bar> < 2 ^ 53 \<Longrightarrow> is_double (of_int k)"
  unfolding is_double_def by (rule exI [of _ k], rule exI [of _ 0]) simp

lemma is_double_fraction: "\<bar>k\<bar> < 2 ^ 53 \<Longrightarrow> e \<le> 1074 \<Longrightarrow> is_double (of_int k / 2 ^ e)"
  unfolding is_double_def by (rule exI [of _ k], rule exI [of _ e]) simp

lemma nearest_double_le:
  assumes "nearest_double d x" and "is_double y" and "x \<le> y"
  shows "d \<le> y"
proof -
  have "\<bar>d - x\<bar> \<le> \<bar>y - x\<bar>"
    using assms(1,2) by (simp add: nearest_double_def)
  then show ?thesis
    using assms(3) by linarith
qed

lemma nearest_double_ge:
  assumes "nearest_double d x" and "is_double y" and "y \<le> x"
  shows "y \<le> d"
proof -
  have "\<bar>d - x\<bar> \<le> \<bar>y - x\<bar>"
    using assms(1,2) by (simp add: nearest_double_def)
  then show ?thesis
    using assms(3) by linarith
qed

lemma nearest_double_exact:
  assumes "nearest_double d x" and "is_double x"
  shows "d = x"
proof -
  have "\<bar>d - x\<bar> \<le> \<bar>x - x\<bar>"
    using assms unfolding nearest_double_def by blast
  then show ?thesis
    by simp
qed

lemma nearest_double_self: "is_double x \<Longrightarrow> nearest_double x x"
  by (simp add: nearest_double_def)

lemma nearest_double_error:
  assumes near: "nearest_double d x" and "0 \<le> x" and "x * 2 ^ s < 2 ^ 53" and "s \<le> 1074"
  shows "\<bar>d - x\<bar> \<le> 1 / 2 ^ s"
proof -
  let ?k = "\<lfloor>x * 2 ^ s\<rfloor>"
  have k0: "0 \<le> ?k"
    using assms(2) by simp
  have "of_int ?k \<le> x * 2 ^ s"
    by (rule of_int_floor_le)
  then have "real_of_int ?k < 2 ^ 53"
    using assms(3) by linarith
  then have "?k < 2 ^ 53"
    by (metis of_int_less_iff of_int_numeral of_int_power)
  then have dbl: "is_double (of_int ?k / 2 ^ s)"
    using k0 assms(4) by (intro is_double_fraction) simp_all
  have "x * 2 ^ s - of_int ?k \<le> 1" and "0 \<le> x * 2 ^ s - of_int ?k"
    by linarith+
  then have "\<bar>x * 2 ^ s - of_int ?k\<bar> \<le> 1"
    by simp
  moreover have "\<bar>of_int ?k / 2 ^ s - x\<bar> = \<bar>x * 2 ^ s - of_int ?k\<bar> / 2 ^ s"
  proof -
    have "of_int ?k / 2 ^ s - x = - (x * 2 ^ s - of_int ?k) / 2 ^ s"
      by (simp add: field_simps)
    then show ?thesis
      by (simp only: abs_divide abs_minus_cancel) simp
  qed
  ultimately have "\<bar>of_int ?k / 2 ^ s - x\<bar> \<le> 1 / 2 ^ s"
    by (simp add: divide_right_mono)
  moreover have "\<bar>d - x\<bar> \<le> \<bar>of_int ?k / 2 ^ s - x\<bar>"
    using near dbl by (simp add: nearest_double_def)
  ultimately show ?thesis
    by linarith
qed

text \<open>
  A double at or above \<open>2 ^ 52 / 2 ^ s\<close> is a multiple of \<open>1 / 2 ^ s\<close>; so a double with a
  full significand that is within half a unit in the last place of \<open>x\<close> is a nearest one.
\<close>

lemma double_on_grid:
  assumes "is_double y" and "2 ^ 52 / 2 ^ s \<le> y"
  shows "\<exists>k :: int. y = of_int k / 2 ^ s"
proof -
  from assms(1) obtain m :: int and e :: nat where m: "\<bar>m\<bar> < 2 ^ 53"
    and y: "y = of_int m * 2 ^ e \<or> y = of_int m / 2 ^ e"
    unfolding is_double_def by blast
  from y show ?thesis
  proof
    assume "y = of_int m * 2 ^ e"
    then have "y = of_int (m * 2 ^ (e + s)) / 2 ^ s"
      by (simp add: power_add)
    then show ?thesis
      by blast
  next
    assume yd: "y = of_int m / 2 ^ e"
    show ?thesis
    proof (cases "e \<le> s")
      case True
      then obtain t where t: "s = e + t"
        using le_Suc_ex by blast
      have "y = of_int (m * 2 ^ t) / 2 ^ s"
        by (simp add: yd t power_add)
      then show ?thesis
        by blast
    next
      case False
      then obtain t where t: "e = s + Suc t"
        by (metis less_imp_Suc_add not_le add_Suc_right)
      have "real_of_int m < 2 ^ 53"
        using m by (metis abs_less_iff of_int_less_iff of_int_numeral of_int_power)
      then have "y < 2 ^ 53 / 2 ^ e"
        unfolding yd by (simp add: divide_strict_right_mono)
      also have "(2 :: real) ^ 53 / 2 ^ e = 2 ^ 52 / 2 ^ s / 2 ^ t"
        by (simp add: t power_add)
      also have "\<dots> \<le> 2 ^ 52 / 2 ^ s"
        by (simp add: field_simps)
      finally show ?thesis
        using assms(2) by linarith
    qed
  qed
qed

lemma nearest_doubleI:
  assumes c: "2 ^ 52 < c" "c < 2 ^ 53" and s: "s \<le> 1074"
    and half: "\<bar>of_int c / 2 ^ s - x\<bar> \<le> 1 / 2 ^ (Suc s)"
  shows "nearest_double (of_int c / 2 ^ s) x"
  unfolding nearest_double_def
proof (intro conjI allI impI)
  show "is_double (of_int c / 2 ^ s)"
    using c s by (intro is_double_fraction) simp_all
next
  fix y
  assume y: "is_double y"
  let ?d = "real_of_int c / 2 ^ s"
  show "\<bar>?d - x\<bar> \<le> \<bar>y - x\<bar>"
  proof (rule ccontr)
    assume "\<not> \<bar>?d - x\<bar> \<le> \<bar>y - x\<bar>"
    then have closer: "\<bar>y - x\<bar> < \<bar>?d - x\<bar>"
      by simp
    have two: "(1 :: real) / 2 ^ (Suc s) + 1 / 2 ^ (Suc s) = 1 / 2 ^ s"
      by simp
    have near: "\<bar>y - ?d\<bar> < 1 / 2 ^ s"
      using closer half two by linarith
    have "real_of_int (c - 1) / 2 ^ s = ?d - 1 / 2 ^ s"
      by (simp add: field_simps)
    then have above: "real_of_int (c - 1) / 2 ^ s < y"
      using near by linarith
    have "(2 :: int) ^ 52 \<le> c - 1"
      using c(1) by simp
    then have "(2 :: real) ^ 52 \<le> real_of_int (c - 1)"
      by (metis of_int_le_iff of_int_numeral of_int_power)
    then have "(2 :: real) ^ 52 / 2 ^ s \<le> real_of_int (c - 1) / 2 ^ s"
      by (simp add: divide_right_mono)
    then have "2 ^ 52 / 2 ^ s \<le> y"
      using above by linarith
    with y obtain k :: int where k: "y = of_int k / 2 ^ s"
      using double_on_grid by blast
    have "\<bar>real_of_int k - real_of_int c\<bar> / 2 ^ s = \<bar>y - ?d\<bar>"
      unfolding k by (simp add: diff_divide_distrib [symmetric])
    then have "\<bar>real_of_int k - real_of_int c\<bar> / 2 ^ s < 1 / 2 ^ s"
      using near by simp
    then have "\<bar>real_of_int k - real_of_int c\<bar> < 1"
      by (simp add: divide_less_cancel)
    then have "\<bar>real_of_int (k - c)\<bar> < 1"
      by simp
    then have "\<bar>k - c\<bar> < 1"
      by (metis of_int_abs of_int_less_iff of_int_1)
    then have "k = c"
      by simp
    then show False
      using closer k by simp
  qed
qed

subsection \<open>The index in range\<close>

lemma quotient_bounds:
  assumes "0 \<le> n" and "n < 127" and "nearest_double q (of_int n / 127)"
  shows "0 \<le> q" and "q \<le> 127 / 128" and "\<bar>q - of_int n / 127\<bar> \<le> 1 / 2 ^ 53"
proof -
  have x0: "0 \<le> real_of_int n / 127"
    using assms(1) by simp
  have "real_of_int n \<le> 126"
    using assms(2) by simp
  then have x1: "real_of_int n / 127 \<le> 127 / 2 ^ 7"
    by simp
  have "is_double (of_int 0)"
    by (rule is_double_of_int) simp
  then have z: "is_double 0"
    by simp
  show "0 \<le> q"
    using assms(3) z x0 by (rule nearest_double_ge)
  have "is_double (of_int 127 / 2 ^ 7)"
    by (rule is_double_fraction) simp_all
  then have "q \<le> of_int 127 / 2 ^ 7"
    using assms(3) x1 by (intro nearest_double_le [of q "of_int n / 127"]) simp_all
  then show "q \<le> 127 / 128"
    by simp
  have "real_of_int n / 127 * 2 ^ 53 < 2 ^ 53"
    using x1 by simp
  then show "\<bar>q - of_int n / 127\<bar> \<le> 1 / 2 ^ 53"
    using assms(3) x0 by (intro nearest_double_error) simp_all
qed

lemma product_bounds:
  assumes "0 \<le> q" and "q \<le> 127 / 128" and "0 < L" and "L < 2 ^ 32"
    and "nearest_double p (q * real L)"
  shows "0 \<le> p" and "p < real L" and "\<bar>p - q * real L\<bar> \<le> 1 / 2 ^ 21"
proof -
  have L: "real L < 2 ^ 32"
    using assms(4) by (metis of_nat_less_iff of_nat_numeral of_nat_power)
  have x0: "0 \<le> q * real L"
    using assms(1) by simp
  have x1: "q * real L \<le> 127 / 128 * real L"
    using assms(2) by (intro mult_right_mono) simp_all
  have "is_double (of_int 0)"
    by (rule is_double_of_int) simp
  then have z: "is_double 0"
    by simp
  show "0 \<le> p"
    using assms(5) z x0 by (rule nearest_double_ge)
  have "127 * int L < 127 * 2 ^ 32"
    using assms(4) by simp
  then have "\<bar>127 * int L\<bar> < 2 ^ 53"
    by simp
  then have "is_double (of_int (127 * int L) / 2 ^ 7)"
    by (rule is_double_fraction) simp
  moreover have "q * real L \<le> of_int (127 * int L) / 2 ^ 7"
    using x1 by simp
  ultimately have "p \<le> of_int (127 * int L) / 2 ^ 7"
    using assms(5) by (intro nearest_double_le [of p "q * real L"])
  then have "p \<le> 127 / 128 * real L"
    by simp
  then show "p < real L"
    using assms(3) by simp
  have "q * real L < 2 ^ 32"
    using x1 L by linarith
  then have "q * real L * 2 ^ 21 < 2 ^ 32 * 2 ^ 21"
    by simp
  then have "q * real L * 2 ^ 21 < 2 ^ 53"
    by simp
  then show "\<bar>p - q * real L\<bar> \<le> 1 / 2 ^ 21"
    using assms(5) x0 by (intro nearest_double_error) simp_all
qed

lemma floor_near_quotient:
  fixes p :: real and N :: int
  assumes "\<bar>p - of_int N / 127\<bar> < 1 / 2 ^ 20"
  shows "\<lfloor>p\<rfloor> = N div 127 \<or> \<lfloor>p\<rfloor> = N div 127 - 1 \<and> N mod 127 = 0"
proof -
  define k where "k = N div 127"
  define \<rho> where "\<rho> = N mod 127"
  have N: "N = 127 * k + \<rho>"
    by (simp add: k_def \<rho>_def)
  have \<rho>: "0 \<le> \<rho>" "\<rho> \<le> 126"
    by (simp_all add: \<rho>_def)
  have E: "real_of_int N / 127 = of_int k + of_int \<rho> / 127"
    by (simp add: N field_simps)
  have small: "(1 :: real) / 2 ^ 20 < 1 / 127"
    by simp
  show ?thesis
  proof (cases "\<rho> = 0")
    case True
    then have "real_of_int N / 127 = of_int k"
      unfolding E by simp
    then have "\<bar>p - of_int k\<bar> < 1 / 2 ^ 20"
      using assms by simp
    moreover have "(1 :: real) / 2 ^ 20 < 1"
      by simp
    ultimately have "of_int k - 1 \<le> p" and "p < of_int k + 1"
      by linarith+
    then have "\<lfloor>p\<rfloor> = k \<or> \<lfloor>p\<rfloor> = k - 1"
      by (cases "of_int k \<le> p") (simp_all add: floor_unique)
    then show ?thesis
      using True by (simp add: k_def \<rho>_def)
  next
    case False
    then have "1 \<le> \<rho>"
      using \<rho>(1) by simp
    then have lo: "(1 :: real) / 127 \<le> of_int \<rho> / 127"
      by simp
    have hi: "real_of_int \<rho> / 127 \<le> 126 / 127"
      using \<rho>(2) by simp
    have "of_int k \<le> p" and "p < of_int k + 1"
      using assms small lo hi unfolding E by linarith+
    then have "\<lfloor>p\<rfloor> = k"
      by (rule floor_unique)
    then show ?thesis
      by (simp add: k_def)
  qed
qed

lemma shaderIndex_range:
  assumes "0 \<le> n" and "n < 127" and "0 < L" and "L < 2 ^ 32"
    and "rounds_correctly js_div js_mul n L"
  shows "0 \<le> shaderIndex js_div js_mul n L" and "shaderIndex js_div js_mul n L < int L"
    and "shaderIndex js_div js_mul n L = (n * int L) div 127
         \<or> shaderIndex js_div js_mul n L = (n * int L) div 127 - 1 \<and> (n * int L) mod 127 = 0"
proof -
  let ?q = "js_div (of_int n) 127"
  let ?p = "js_mul ?q (real L)"
  have nq: "nearest_double ?q (of_int n / 127)" and np: "nearest_double ?p (?q * real L)"
    using assms(5) by (simp_all add: rounds_correctly_def)
  note q = quotient_bounds [OF assms(1,2) nq]
  note p = product_bounds [OF q(1,2) assms(3,4) np]
  show "0 \<le> shaderIndex js_div js_mul n L"
    using p(1) by (simp add: shaderIndex_def)
  have "\<lfloor>?p\<rfloor> < int L"
    using p(2) by (simp add: floor_less_iff)
  then show "shaderIndex js_div js_mul n L < int L"
    by (simp add: shaderIndex_def)
  have L: "real L < 2 ^ 32"
    using assms(4) by (metis of_nat_less_iff of_nat_numeral of_nat_power)
  have "?q * real L - of_int n / 127 * real L = (?q - of_int n / 127) * real L"
    by (simp only: left_diff_distrib)
  then have "\<bar>?q * real L - of_int n / 127 * real L\<bar> = \<bar>?q - of_int n / 127\<bar> * \<bar>real L\<bar>"
    by (simp only: abs_mult)
  also have "\<dots> = \<bar>?q - of_int n / 127\<bar> * real L"
    by simp
  also have "\<dots> \<le> 1 / 2 ^ 53 * real L"
    using q(3) by (intro mult_right_mono) simp_all
  also have "\<dots> < 1 / 2 ^ 53 * 2 ^ 32"
    using L by simp
  also have "\<dots> = (1 :: real) / 2 ^ 21"
    by simp
  finally have e1: "\<bar>?q * real L - of_int n / 127 * real L\<bar> < 1 / 2 ^ 21" .
  have "\<bar>?p - of_int n / 127 * real L\<bar> < 1 / 2 ^ 21 + 1 / 2 ^ 21"
    using e1 p(3) by linarith
  moreover have "real_of_int n / 127 * real L = of_int (n * int L) / 127"
    by simp
  moreover have "(1 :: real) / 2 ^ 21 + 1 / 2 ^ 21 = 1 / 2 ^ 20"
    by simp
  ultimately have "\<bar>?p - of_int (n * int L) / 127\<bar> < 1 / 2 ^ 20"
    by simp
  then have "\<lfloor>?p\<rfloor> = (n * int L) div 127
      \<or> \<lfloor>?p\<rfloor> = (n * int L) div 127 - 1 \<and> (n * int L) mod 127 = 0"
    by (rule floor_near_quotient)
  then show "shaderIndex js_div js_mul n L = (n * int L) div 127
         \<or> shaderIndex js_div js_mul n L = (n * int L) div 127 - 1 \<and> (n * int L) mod 127 = 0"
    by (simp add: shaderIndex_def)
qed

lemma shaderIndex_top:
  assumes "L < 2 ^ 32" and "rounds_correctly js_div js_mul 127 L"
  shows "shaderIndex js_div js_mul 127 L = int L"
proof -
  let ?q = "js_div 127 127"
  let ?p = "js_mul ?q (real L)"
  have nq: "nearest_double ?q 1" and np: "nearest_double ?p (?q * real L)"
    using assms(2) by (simp_all add: rounds_correctly_def)
  have "is_double (of_int 1)"
    by (rule is_double_of_int) simp
  then have "is_double 1"
    by simp
  with nq have q: "?q = 1"
    by (rule nearest_double_exact)
  have "int L < 2 ^ 32"
    using assms(1) by simp
  then have "\<bar>int L\<bar> < 2 ^ 53"
    by simp
  then have "is_double (of_int (int L))"
    by (rule is_double_of_int)
  then have "is_double (?q * real L)"
    unfolding q by simp
  with np have "?p = ?q * real L"
    by (rule nearest_double_exact)
  then have "?p = real L"
    unfolding q by simp
  then show ?thesis
    by (simp add: shaderIndex_def)
qed

lemma loadCurrentShader_manager: "shaderManager (loadCurrentShader a) = shaderManager a"
  by (simp add: loadCurrentShader_def split: option.split)

lemma loadCurrentShader_loaded:
  "shaders (shaderManager a) \<noteq> [] \<Longrightarrow>
   loaded (loadCurrentShader a) = getCurrentShader (shaderManager a)"
  by (simp add: loadCurrentShader_def getCurrentShader_def Let_def)

lemma nearest_quotient_67:
  "nearest_double (of_int 4751829528091704 / 2 ^ 53) (67 / 127)"
  by (rule nearest_doubleI) simp_all

lemma nearest_product_381:
  "nearest_double (of_int 7072058789855231 / 2 ^ 45) (of_int 4751829528091704 / 2 ^ 53 * 381)"
  by (rule nearest_doubleI) simp_all

lemma nearest_one: "nearest_double 1 1"
proof -
  have "is_double (of_int 1)"
    by (rule is_double_of_int) simp
  then show ?thesis
    by (simp add: nearest_double_self)
qed

lemma nearest_381: "nearest_double 381 381"
proof -
  have "is_double (of_int 381)"
    by (rule is_double_of_int) simp
  then show ?thesis
    by (simp add: nearest_double_self)
qed

text \<open>
  Claim C8. For a MIDI note \<open>n\<close> and a non-empty shader list of length \<open>L\<close> (below
  \<open>2 ^ 32\<close>, as every JavaScript array), the action \<open>index\<close> computes
  \<open>Math.floor((n / 127) * L)\<close> on doubles, with a division and a multiplication that round to
  a nearest double. For \<open>0 \<le> n < 127\<close> this index is within \<open>0 .. L - 1\<close>, so
  \<open>setShaderByIndex\<close> accepts it: it becomes the current index (the shader list is not
  changed) and \<open>loadCurrentShader\<close> hands the shader of that index to the renderer. The
  index is the exact quotient \<open>(n * L) div 127\<close>, or one less than it when \<open>127\<close> divides
  \<open>n * L\<close> and the rounded product falls just below the integer. For \<open>n = 127\<close> the
  computed index is \<open>L\<close> itself, \<open>setShaderByIndex\<close> rejects it and returns \<open>null\<close>, the
  manager is left as it was and the shader that was current is loaded again.
\<close>

theorem midi_note_selects_shader:
  assumes "0 \<le> n" and "n < 127" and "shaders (shaderManager a) \<noteq> []"
    and "L = length (shaders (shaderManager a))" and "L < 2 ^ 32"
    and "rounds_correctly js_div js_mul n L" and "rounds_correctly js_div js_mul 127 L"
  shows "shaderIndex js_div js_mul n L = \<lfloor>js_mul (js_div (of_int n) 127) (real L)\<rfloor>
    \<and> (shaderIndex js_div js_mul n L = (n * int L) div 127
       \<or> shaderIndex js_div js_mul n L = (n * int L) div 127 - 1 \<and> (n * int L) mod 127 = 0)
    \<and> 0 \<le> shaderIndex js_div js_mul n L \<and> shaderIndex js_div js_mul n L < int L
    \<and> currentIndex (shaderManager (handleShaderChange js_div js_mul (ActIndex n) a))
        = shaderIndex js_div js_mul n L
    \<and> shaders (shaderManager (handleShaderChange js_div js_mul (ActIndex n) a))
        = shaders (shaderManager a)
    \<and> loaded (handleShaderChange js_div js_mul (ActIndex n) a)
        = Some (Some (shaders (shaderManager a) ! nat (shaderIndex js_div js_mul n L)),
                loadedShaders (shaderManager a)
                  (shaders (shaderManager a) ! nat (shaderIndex js_div js_mul n L)))
    \<and> shaderIndex js_div js_mul 127 L = int L
    \<and> setShaderByIndex (shaderIndex js_div js_mul 127 L) (shaderManager a)
        = (None, shaderManager a)
    \<and> shaderManager (handleShaderChange js_div js_mul (ActIndex 127) a) = shaderManager a
    \<and> loaded (handleShaderChange js_div js_mul (ActIndex 127) a)
        = getCurrentShader (shaderManager a)"
proof -
  let ?m = "shaderManager a"
  let ?i = "shaderIndex js_div js_mul n L"
  have pos: "0 < L"
    using assms(3,4) by simp
  note rng = shaderIndex_range [OF assms(1,2) pos assms(5,6)]
  have top: "shaderIndex js_div js_mul 127 L = int L"
    using assms(5,7) by (rule shaderIndex_top)
  have sel: "snd (setShaderByIndex ?i ?m) = ?m\<lparr>currentIndex := ?i\<rparr>"
    using rng(1,2) assms(4) by (simp add: setShaderByIndex_def Let_def)
  have app: "handleShaderChange js_div js_mul (ActIndex n) a
      = loadCurrentShader (a\<lparr>shaderManager := ?m\<lparr>currentIndex := ?i\<rparr>\<rparr>)"
    using sel assms(4) by (simp add: Let_def)
  have cur: "currentIndex (shaderManager (handleShaderChange js_div js_mul (ActIndex n) a)) = ?i"
    unfolding app by (simp add: loadCurrentShader_manager)
  have shs: "shaders (shaderManager (handleShaderChange js_div js_mul (ActIndex n) a))
      = shaders ?m"
    unfolding app by (simp add: loadCurrentShader_manager)
  have get: "getCurrentShader (?m\<lparr>currentIndex := ?i\<rparr>)
      = Some (Some (shaders ?m ! nat ?i), loadedShaders ?m (shaders ?m ! nat ?i))"
    using rng(1,2) assms(3,4) by (simp add: getCurrentShader_def js_index_def Let_def)
  have lod: "loaded (handleShaderChange js_div js_mul (ActIndex n) a)
      = Some (Some (shaders ?m ! nat ?i), loadedShaders ?m (shaders ?m ! nat ?i))"
    unfolding app using get by (simp add: loadCurrentShader_def)
  have rej: "setShaderByIndex (shaderIndex js_div js_mul 127 L) ?m = (None, ?m)"
    unfolding top using assms(4) by (simp add: setShaderByIndex_def)
  have app': "handleShaderChange js_div js_mul (ActIndex 127) a = loadCurrentShader a"
    using rej assms(4) by (simp add: Let_def)
  have same: "shaderManager (handleShaderChange js_div js_mul (ActIndex 127) a) = ?m"
    unfolding app' by (rule loadCurrentShader_manager)
  have lod': "loaded (handleShaderChange js_div js_mul (ActIndex 127) a) = getCurrentShader ?m"
    unfolding app' using assms(3) by (rule loadCurrentShader_loaded)
  have flo: "?i = \<lfloor>js_mul (js_div (of_int n) 127) (real L)\<rfloor>"
    by (simp add: shaderIndex_def)
  show ?thesis
    using flo rng(3) rng(1,2) cur shs lod top rej same lod' by (intro conjI)
qed

theorem midi_note_selects_shader_witness:
  "(0::int) \<le> 67 \<and> (67::int) < 127
   \<and> shaders (shaderManager
        \<lparr>shaderManager = new_ShaderManager\<lparr>shaders := replicate 381 ''s.glsl''\<rparr>, loaded = None\<rparr>) \<noteq> []
   \<and> rounds_correctly
        (\<lambda>x y. if x = 67 \<and> y = 127 then 4751829528091704 / 2 ^ 53 else x / y)
        (\<lambda>x y. if x = 4751829528091704 / 2 ^ 53 \<and> y = 381
           then 7072058789855231 / 2 ^ 45 else x * y) 67 381
   \<and> rounds_correctly
        (\<lambda>x y. if x = 67 \<and> y = 127 then 4751829528091704 / 2 ^ 53 else x / y)
        (\<lambda>x y. if x = 4751829528091704 / 2 ^ 53 \<and> y = 381
           then 7072058789855231 / 2 ^ 45 else x * y) 127 381
   \<and> shaderIndex
        (\<lambda>x y. if x = 67 \<and> y = 127 then 4751829528091704 / 2 ^ 53 else x / y)
        (\<lambda>x y. if x = 4751829528091704 / 2 ^ 53 \<and> y = 381
           then 7072058789855231 / 2 ^ 45 else x * y) 67 381 = 200
   \<and> (67 * int 381) div 127 = 201
   \<and> currentIndex (shaderManager (handleShaderChange
        (\<lambda>x y. if x = 67 \<and> y = 127 then 4751829528091704 / 2 ^ 53 else x / y)
        (\<lambda>x y. if x = 4751829528091704 / 2 ^ 53 \<and> y = 381
           then 7072058789855231 / 2 ^ 45 else x * y) (ActIndex 67)
        \<lparr>shaderManager = new_ShaderManager\<lparr>shaders := replicate 381 ''s.glsl''\<rparr>, loaded = None\<rparr>)) = 200
   \<and> loaded (handleShaderChange
        (\<lambda>x y. if x = 67 \<and> y = 127 then 4751829528091704 / 2 ^ 53 else x / y)
        (\<lambda>x y. if x = 4751829528091704 / 2 ^ 53 \<and> y = 381
           then 7072058789855231 / 2 ^ 45 else x * y) (ActIndex 67)
        \<lparr>shaderManager = new_ShaderManager\<lparr>shaders := replicate 381 ''s.glsl''\<rparr>, loaded = None\<rparr>)
      = Some (Some ''s.glsl'', None)
   \<and> shaderIndex
        (\<lambda>x y. if x = 67 \<and> y = 127 then 4751829528091704 / 2 ^ 53 else x / y)
        (\<lambda>x y. if x = 4751829528091704 / 2 ^ 53 \<and> y = 381
           then 7072058789855231 / 2 ^ 45 else x * y) 127 381 = 381
   \<and> currentIndex (shaderManager (handleShaderChange
        (\<lambda>x y. if x = 67 \<and> y = 127 then 4751829528091704 / 2 ^ 53 else x / y)
        (\<lambda>x y. if x = 4751829528091704 / 2 ^ 53 \<and> y = 381
           then 7072058789855231 / 2 ^ 45 else x * y) (ActIndex 127)
        \<lparr>shaderManager = new_ShaderManager\<lparr>shaders := replicate 381 ''s.glsl''\<rparr>, loaded = None\<rparr>)) = 0"
proof -
  have r1: "rounds_correctly
        (\<lambda>x y. if x = 67 \<and> y = 127 then 4751829528091704 / 2 ^ 53 else x / y)
        (\<lambda>x y. if x = 4751829528091704 / 2 ^ 53 \<and> y = 381
           then 7072058789855231 / 2 ^ 45 else x * y) 67 381"
    using nearest_quotient_67 nearest_product_381 by (simp add: rounds_correctly_def)
  have r2: "rounds_correctly
        (\<lambda>x y. if x = 67 \<and> y = 127 then 4751829528091704 / 2 ^ 53 else x / y)
        (\<lambda>x y. if x = 4751829528091704 / 2 ^ 53 \<and> y = 381
           then 7072058789855231 / 2 ^ 45 else x * y) 127 381"
    using nearest_one nearest_381 by (simp add: rounds_correctly_def)
  show ?thesis
    using midi_note_selects_shader [of 67
       "\<lparr>shaderManager = new_ShaderManager\<lparr>shaders := replicate 381 ''s.glsl''\<rparr>, loaded = None\<rparr>" 381
       "(\<lambda>x y. if x = 67 \<and> y = 127 then 4751829528091704 / 2 ^ 53 else x / y)"
       "(\<lambda>x y. if x = 4751829528091704 / 2 ^ 53 \<and> y = 381
           then 7072058789855231 / 2 ^ 45 else x * y)"] r1 r2
    by (simp add: new_ShaderManager_def shaderIndex_def setShaderByIndex_def
        loadCurrentShader_def getCurrentShader_def js_index_def)
qed
section \<open>Properties of the mask canvas and its history\<close>

lemma getImageData_id: "getImageData c = c"
  by (simp add: getImageData_def)

lemma putImageData_same:
  assumes "wf_image c" and "wf_image im"
    and "width im = width c" and "height im = height c"
  shows "putImageData c im = c\<lparr>data := data im\<rparr>"
proof -
  let ?f = "\<lambda>i. let p = i div 4; k = i mod 4; x = p mod width c; y = p div width c
                in if x < width im \<and> y < height im \<and> y < height c
                   then data im ! ((y * width im + x) * 4 + k)
                   else data c ! i"
  have len: "length (data im) = length (data c)"
    using assms by (simp add: wf_image_def)
  have "map ?f [0..<length (data c)] = data im"
  proof (rule nth_equalityI)
    show "length (map ?f [0..<length (data c)]) = length (data im)"
      using len by simp
  next
    fix i
    assume "i < length (map ?f [0..<length (data c)])"
    then have i: "i < 4 * width c * height c"
      using assms(1) by (simp add: wf_image_def)
    then have wpos: "0 < width c"
      by (cases "width c") simp_all
    have p: "i div 4 < width c * height c"
      using i by (simp add: less_mult_imp_div_less mult.commute mult.assoc)
    have y: "(i div 4) div width c < height c"
      using p wpos by (simp add: less_mult_imp_div_less mult.commute)
    have x: "(i div 4) mod width c < width c"
      using wpos by simp
    have "((i div 4) div width c * width c + (i div 4) mod width c) * 4 + i mod 4 = i"
      by simp
    then show "map ?f [0..<length (data c)] ! i = data im ! i"
      using x y i assms by (simp add: Let_def wf_image_def)
  qed
  then show ?thesis
    by (simp add: putImageData_def)
qed

lemma putImageData_restore:
  assumes "wf_image c" and "wf_image im"
    and "width im = width c" and "height im = height c"
  shows "putImageData c im = im"
  using putImageData_same [OF assms] assms(3,4) by simp

lemma set_needsUpdate_fields:
  "maskCanvas (set_needsUpdate r) = maskCanvas r"
  "maskHistory (set_needsUpdate r) = maskHistory r"
  "maxHistory (set_needsUpdate r) = maxHistory r"
  "maskCtx (set_needsUpdate r) = maskCtx r"
  by (simp_all add: set_needsUpdate_def split: option.split)

lemma uint_inv8: "uint (inv8 v) = 255 - uint v"
proof -
  have less: "uint v < 256"
    using uint_bounded [of v] by simp
  have nonneg: "0 \<le> uint v"
    by simp
  have "max 0 (min 255 (255 - uint v)) = 255 - uint v"
    using less nonneg by (simp only: max_def min_def) simp
  then have eq: "inv8 v = word_of_int (255 - uint v)"
    by (simp only: inv8_def clamp8_def)
  have "uint (word_of_int (255 - uint v) :: byte) = (255 - uint v) mod 2 ^ LENGTH(8)"
    by (rule uint_word_of_int)
  also have "\<dots> = 255 - uint v"
  proof -
    have "0 \<le> 255 - uint v" and "255 - uint v < 256"
      using less uint_nonnegative [of v] by linarith+
    then have "(255 - uint v) mod 256 = 255 - uint v"
      by (rule mod_pos_pos_trivial)
    then show ?thesis by simp
  qed
  finally show ?thesis
    by (simp only: eq)
qed

lemma inv8_inv8: "inv8 (inv8 v) = v"
proof -
  have "uint (inv8 (inv8 v)) = uint v"
    by (simp add: uint_inv8)
  then show ?thesis
    by (simp only: word_uint_eq_iff)
qed

lemma length_invert_loop: "length (invert_loop i d) = length d"
proof (induction i d rule: invert_loop.induct)
  case (1 i d)
  show ?case
  proof (cases "i < length d")
    case True
    then show ?thesis
      using "1.IH" by (subst invert_loop.simps) simp
  next
    case False
    then show ?thesis
      by (subst invert_loop.simps) simp
  qed
qed

lemma nth_invert_loop:
  "j < length d \<Longrightarrow>
   invert_loop i d ! j = (if i \<le> j \<and> (j - i) mod 4 \<noteq> 3 then inv8 (d ! j) else d ! j)"
proof (induction i d rule: invert_loop.induct)
  case (1 i d)
  show ?case
  proof (cases "i < length d")
    case True
    let ?d' = "d[i := inv8 (d ! i), i + 1 := inv8 (d ! (i + 1)), i + 2 := inv8 (d ! (i + 2))]"
    have step: "invert_loop i d = invert_loop (i + 4) ?d'"
      using True by (subst invert_loop.simps) simp
    have j': "j < length ?d'"
      using "1.prems" by simp
    have ih: "invert_loop (i + 4) ?d' ! j =
        (if i + 4 \<le> j \<and> (j - (i + 4)) mod 4 \<noteq> 3 then inv8 (?d' ! j) else ?d' ! j)"
      using "1.IH" [OF True j'] .
    consider "j < i" | "j = i" | "j = i + 1" | "j = i + 2" | "j = i + 3" | "i + 4 \<le> j"
      by linarith
    then show ?thesis
    proof cases
      case 1
      then show ?thesis using step ih "1.prems" by simp
    next
      case 2
      then show ?thesis using step ih "1.prems" by simp
    next
      case 3
      then show ?thesis using step ih "1.prems" by simp
    next
      case 4
      then show ?thesis using step ih "1.prems" by simp
    next
      case 5
      then show ?thesis using step ih "1.prems" by simp
    next
      case 6
      then obtain k where k: "j = i + 4 + k"
        using le_Suc_ex by blast
      have "(j - i) mod 4 = (j - (i + 4)) mod 4"
        by (simp add: k)
      then show ?thesis using 6 step ih "1.prems" by simp
    qed
  next
    case False
    then show ?thesis
      using "1.prems" by (subst invert_loop.simps) simp
  qed
qed

lemma invert_loop_twice: "invert_loop 0 (invert_loop 0 d) = d"
  by (rule nth_equalityI) (simp_all add: length_invert_loop nth_invert_loop inv8_inv8)

lemma invert_loop_Nil: "invert_loop 0 [] = []"
  by (subst invert_loop.simps) simp

lemma nth_skip4: "(r # g # b # a # rest) ! (4 + k) = rest ! k"
  using nth_append_length_plus [of "[r, g, b, a]" rest k] by simp

lemma invert_loop_Cons4:
  "invert_loop 0 (r # g # b # a # rest) = inv8 r # inv8 g # inv8 b # a # invert_loop 0 rest"
proof (rule nth_equalityI)
  show "length (invert_loop 0 (r # g # b # a # rest))
      = length (inv8 r # inv8 g # inv8 b # a # invert_loop 0 rest)"
    by (simp add: length_invert_loop)
next
  fix j
  assume "j < length (invert_loop 0 (r # g # b # a # rest))"
  then have j: "j < length (r # g # b # a # rest)"
    by (simp add: length_invert_loop)
  have lhs: "invert_loop 0 (r # g # b # a # rest) ! j
      = (if j mod 4 \<noteq> 3 then inv8 ((r # g # b # a # rest) ! j) else (r # g # b # a # rest) ! j)"
    using nth_invert_loop [OF j, of 0] by simp
  consider "j = 0" | "j = 1" | "j = 2" | "j = 3" | "4 \<le> j"
    by linarith
  then show "invert_loop 0 (r # g # b # a # rest) ! j
      = (inv8 r # inv8 g # inv8 b # a # invert_loop 0 rest) ! j"
  proof cases
    case 1
    show ?thesis using lhs by (simp add: 1)
  next
    case 2
    show ?thesis using lhs by (simp add: 2)
  next
    case 3
    show ?thesis using lhs by (simp add: 3)
  next
    case 4
    show ?thesis using lhs by (simp add: 4)
  next
    case 5
    then obtain k where k: "j = 4 + k"
      using le_Suc_ex by blast
    have kl: "k < length rest"
      using j by (simp add: k)
    have m: "(4 + k) mod 4 = k mod 4"
      by simp
    have r: "invert_loop 0 rest ! k = (if k mod 4 \<noteq> 3 then inv8 (rest ! k) else rest ! k)"
      using nth_invert_loop [OF kl, of 0] by simp
    have l4: "invert_loop 0 (r # g # b # a # rest) ! (4 + k)
        = (if (4 + k) mod 4 \<noteq> 3 then inv8 ((r # g # b # a # rest) ! (4 + k))
           else (r # g # b # a # rest) ! (4 + k))"
      using lhs unfolding k .
    show ?thesis
      unfolding k l4 nth_skip4 m r by (rule refl)
  qed
qed

lemma read_back_opaque: "opaque_data d \<Longrightarrow> read_back q d = d"
  by (induction d rule: opaque_data.induct) simp_all

lemma opaque_short: "length d < 4 \<Longrightarrow> opaque_data d"
  by (cases d rule: opaque_data.cases) simp_all

lemma opaque_invert_loop: "opaque_data d \<Longrightarrow> opaque_data (invert_loop 0 d)"
proof (induction d rule: opaque_data.induct)
  case (1 r g b a rest)
  then show ?case
    by (simp add: invert_loop_Cons4)
qed (rule opaque_short, simp add: length_invert_loop)+

lemma invertMask_canvas:
  assumes "maskCtx r" and "wf_image (maskCanvas r)" and "opaque_data (data (maskCanvas r))"
  shows "maskCanvas (invertMask q r)
      = (maskCanvas r)\<lparr>data := invert_loop 0 (data (maskCanvas r))\<rparr>"
proof -
  let ?im = "(maskCanvas r)\<lparr>data := invert_loop 0 (data (maskCanvas r))\<rparr>"
  have kept: "premultiplied q ?im = ?im"
    using assms(3) by (simp add: premultiplied_def read_back_opaque opaque_invert_loop)
  have "wf_image ?im"
    using assms(2) by (simp add: wf_image_def length_invert_loop)
  then have "putImageData (maskCanvas r) ?im = ?im"
    using assms(2) by (intro putImageData_restore) simp_all
  then show ?thesis
    using assms(1) kept
    by (simp add: invertMask_def Let_def getImageData_id set_needsUpdate_fields)
qed

lemma invertMask_ctx: "maskCtx (invertMask q r) = maskCtx r"
  by (simp add: invertMask_def Let_def set_needsUpdate_fields)

lemma new_ShaderRenderer_undone:
  "maskCtx (snd (undoMask (new_ShaderRenderer 1 1 True)))"
  "maskCanvas (snd (undoMask (new_ShaderRenderer 1 1 True)))
     = \<lparr> width = 1, height = 1, data = [0, 0, 0, 0] \<rparr>"
proof -
  let ?blank = "\<lparr> width = 1, height = 1, data = [0, 0, 0, 0 :: byte] \<rparr>"
  let ?white = "\<lparr> width = 1, height = 1, data = [255, 255, 255, 255 :: byte] \<rparr>"
  have new: "new_ShaderRenderer 1 1 True
      = \<lparr> maskCanvas = ?white, maskCtx = True, maskTexture = Some True,
          maskHistory = [?blank], maxHistory = 10 \<rparr>"
    by (simp add: new_ShaderRenderer_def initMaskCanvas_def clearMask_def saveToHistory_def
        fillRect_white_def set_needsUpdate_def getImageData_def Let_def numeral_eq_Suc)
  have put: "putImageData ?white ?blank = ?blank"
    by (rule putImageData_restore) (simp_all add: wf_image_def)
  show "maskCtx (snd (undoMask (new_ShaderRenderer 1 1 True)))"
    unfolding new by (simp add: undoMask_def Let_def set_needsUpdate_def)
  show "maskCanvas (snd (undoMask (new_ShaderRenderer 1 1 True))) = ?blank"
    unfolding new using put by (simp add: undoMask_def Let_def set_needsUpdate_def)
qed

lemma invertMask_transparent_pixel:
  assumes "maskCtx r" and "maskCanvas r = \<lparr> width = w, height = h, data = [0, 0, 0, 0] \<rparr>"
    and "w * h = 1"
  shows "maskCanvas (invertMask q r) = maskCanvas r"
proof -
  let ?c = "\<lparr> width = w, height = h, data = [0, 0, 0, 0 :: byte] \<rparr>"
  have inv: "invert_loop 0 [0, 0, 0, 0] = [255, 255, 255, 0]"
    by (simp add: invert_loop_Cons4 invert_loop_Nil inv8_def clamp8_def)
  have kept: "premultiplied q (?c\<lparr>data := invert_loop 0 (data ?c)\<rparr>) = ?c"
    by (simp add: premultiplied_def inv)
  have wf: "wf_image ?c"
    using assms(3) by (simp add: wf_image_def)
  have put: "putImageData ?c ?c = ?c"
    using wf wf by (rule putImageData_restore) simp_all
  show ?thesis
    using assms(1)
    by (simp add: invertMask_def Let_def getImageData_def set_needsUpdate_fields assms(2)
        kept [simplified] put)
qed

text \<open>
  Claim C10, as stated, fails on pixels that are not opaque. The canvas starts
  transparent, and the constructor's \<open>clearMask\<close> saves that bitmap before it fills the
  mask white, so one \<open>undoMask\<close> on a new renderer brings the transparent bitmap back.
  There \<open>invertMask\<close> writes \<open>(255, 255, 255, 0)\<close>, which the canvas keeps as transparent
  black: the colour bytes stay 0 and do not become \<open>255 - 0\<close>.
\<close>

theorem invertMask_transparent_counterexample:
  "data (maskCanvas (snd (undoMask (new_ShaderRenderer 1 1 True)))) = [0, 0, 0, 0]
   \<and> data (maskCanvas (invertMask (\<lambda>v a. v) (snd (undoMask (new_ShaderRenderer 1 1 True)))))
       = [0, 0, 0, 0]
   \<and> uint (data (maskCanvas
         (invertMask (\<lambda>v a. v) (snd (undoMask (new_ShaderRenderer 1 1 True))))) ! 0)
       \<noteq> 255 - uint (data (maskCanvas (snd (undoMask (new_ShaderRenderer 1 1 True)))) ! 0)"
proof -
  let ?r = "snd (undoMask (new_ShaderRenderer 1 1 True))"
  have c: "maskCtx ?r"
    and m: "maskCanvas ?r = \<lparr> width = 1, height = 1, data = [0, 0, 0, 0] \<rparr>"
    by (rule new_ShaderRenderer_undone)+
  have same: "maskCanvas (invertMask (\<lambda>v a. v) ?r) = maskCanvas ?r"
    using c m by (rule invertMask_transparent_pixel) simp
  show ?thesis
    unfolding same m by simp
qed

text \<open>
  Claim C10, amended. With a 2d context on a well-formed bitmap all of whose pixels are
  opaque, \<open>invertMask\<close> replaces the R, G and B byte \<open>v\<close> of every pixel by \<open>255 - v\<close> and
  leaves the alpha byte (position 3 of each group of four) as it is, so the bitmap stays
  opaque; width and height do not change; applying it twice gives back the bitmap
  exactly. This holds whatever the canvas does with pixels that are partly transparent.
\<close>

theorem invertMask_involution:
  assumes "maskCtx r" and "wf_image (maskCanvas r)" and "opaque_data (data (maskCanvas r))"
  shows "maskCanvas (invertMask q' (invertMask q r)) = maskCanvas r
    \<and> width (maskCanvas (invertMask q r)) = width (maskCanvas r)
    \<and> height (maskCanvas (invertMask q r)) = height (maskCanvas r)
    \<and> length (data (maskCanvas (invertMask q r))) = length (data (maskCanvas r))
    \<and> opaque_data (data (maskCanvas (invertMask q r)))
    \<and> (\<forall>j < length (data (maskCanvas r)).
          uint (data (maskCanvas (invertMask q r)) ! j) =
            (if j mod 4 = 3 then uint (data (maskCanvas r) ! j)
             else 255 - uint (data (maskCanvas r) ! j)))"
proof -
  have one: "maskCanvas (invertMask q r)
      = (maskCanvas r)\<lparr>data := invert_loop 0 (data (maskCanvas r))\<rparr>"
    using assms by (rule invertMask_canvas)
  have wf': "wf_image (maskCanvas (invertMask q r))"
    using assms(2) by (simp add: one wf_image_def length_invert_loop)
  have ctx': "maskCtx (invertMask q r)"
    using assms(1) by (simp add: invertMask_ctx)
  have op': "opaque_data (data (maskCanvas (invertMask q r)))"
    using assms(3) by (simp add: one opaque_invert_loop)
  have two: "maskCanvas (invertMask q' (invertMask q r)) = maskCanvas r"
    using invertMask_canvas [OF ctx' wf' op', of q'] by (simp add: one invert_loop_twice)
  have px: "\<forall>j < length (data (maskCanvas r)).
      uint (data (maskCanvas (invertMask q r)) ! j) =
        (if j mod 4 = 3 then uint (data (maskCanvas r) ! j)
         else 255 - uint (data (maskCanvas r) ! j))"
    by (simp add: one nth_invert_loop uint_inv8)
  show ?thesis
    using two px op' by (simp add: one length_invert_loop)
qed

theorem invertMask_involution_witness:
  "maskCtx \<lparr> maskCanvas = \<lparr> width = 2, height = 1,
                data = [255, 255, 255, 255, 0, 0, 0, 255] \<rparr>,
             maskCtx = True, maskTexture = Some False, maskHistory = [], maxHistory = 10 \<rparr>
   \<and> wf_image \<lparr> width = 2, height = 1, data = [255, 255, 255, 255, 0, 0, 0, 255] \<rparr>
   \<and> opaque_data [255, 255, 255, 255, 0, 0, 0, 255]
   \<and> data (maskCanvas (invertMask (\<lambda>v a. v)
        \<lparr> maskCanvas = \<lparr> width = 2, height = 1,
              data = [255, 255, 255, 255, 0, 0, 0, 255] \<rparr>,
          maskCtx = True, maskTexture = Some False, maskHistory = [], maxHistory = 10 \<rparr>))
       = [0, 0, 0, 255, 255, 255, 255, 255]
   \<and> maskCanvas (invertMask (\<lambda>v a. v) (invertMask (\<lambda>v a. v)
        \<lparr> maskCanvas = \<lparr> width = 2, height = 1,
              data = [255, 255, 255, 255, 0, 0, 0, 255] \<rparr>,
          maskCtx = True, maskTexture = Some False, maskHistory = [], maxHistory = 10 \<rparr>))
       = \<lparr> width = 2, height = 1, data = [255, 255, 255, 255, 0, 0, 0, 255] \<rparr>"
proof -
  let ?c = "\<lparr> width = 2, height = 1, data = [255, 255, 255, 255, 0, 0, 0, 255 :: byte] \<rparr>"
  let ?r = "\<lparr> maskCanvas = ?c, maskCtx = True, maskTexture = Some False,
             maskHistory = [], maxHistory = 10 \<rparr>"
  have c: "maskCtx ?r"
    by simp
  have w: "wf_image (maskCanvas ?r)"
    by (simp add: wf_image_def)
  have o: "opaque_data (data (maskCanvas ?r))"
    by simp
  have d: "data (maskCanvas (invertMask (\<lambda>v a. v) ?r)) = [0, 0, 0, 255, 255, 255, 255, 255]"
    unfolding invertMask_canvas [OF c w o]
    by (simp add: invert_loop_Cons4 invert_loop_Nil inv8_def clamp8_def)
  show ?thesis
    using invertMask_involution [OF c w o, of "\<lambda>v a. v" "\<lambda>v a. v"] d
    by (simp add: wf_image_def)
qed

lemma saveToHistory_history:
  "maskCtx r \<Longrightarrow>
   maskHistory (saveToHistory r) =
     (if maxHistory r < Suc (length (maskHistory r))
      then tl (maskHistory r @ [maskCanvas r]) else maskHistory r @ [maskCanvas r])"
  by (simp add: saveToHistory_def Let_def getImageData_id)

lemma saveToHistory_fields:
  "maskCanvas (saveToHistory r) = maskCanvas r"
  "maxHistory (saveToHistory r) = maxHistory r"
  "maskCtx (saveToHistory r) = maskCtx r"
  by (simp_all add: saveToHistory_def Let_def)

lemma saveToHistory_bound:
  "length (maskHistory r) \<le> maxHistory r \<Longrightarrow>
   length (maskHistory (saveToHistory r)) \<le> maxHistory r"
  by (cases "maskCtx r") (auto simp add: saveToHistory_history, simp add: saveToHistory_def)

lemma undoMask_bound:
  "length (maskHistory r) \<le> maxHistory r \<Longrightarrow>
   length (maskHistory (snd (undoMask r))) \<le> maxHistory r"
  by (auto simp add: undoMask_def Let_def set_needsUpdate_fields)

lemma undoMask_maxHistory: "maxHistory (snd (undoMask r)) = maxHistory r"
  by (simp add: undoMask_def Let_def set_needsUpdate_fields)

lemma clearMask_history: "maskHistory (clearMask r) = maskHistory (saveToHistory r)"
  by (simp add: clearMask_def Let_def set_needsUpdate_fields) (simp add: saveToHistory_def)

lemma clearMask_maxHistory: "maxHistory (clearMask r) = maxHistory r"
  by (simp add: clearMask_def Let_def set_needsUpdate_fields saveToHistory_fields)

lemma invertMask_history:
  "maskHistory (invertMask q r) = maskHistory r" "maxHistory (invertMask q r) = maxHistory r"
  by (simp_all add: invertMask_def Let_def set_needsUpdate_fields)

lemma drawOnMask_history:
  "maskHistory (drawOnMask paint r) = maskHistory r"
  "maxHistory (drawOnMask paint r) = maxHistory r"
  by (simp_all add: drawOnMask_def set_needsUpdate_fields)

lemma mask_step_maxHistory: "maxHistory (mask_step c r) = maxHistory r"
  by (cases c)
    (simp_all add: saveToHistory_fields undoMask_maxHistory clearMask_maxHistory
      invertMask_history drawOnMask_history)

lemma mask_step_bound:
  "length (maskHistory r) \<le> maxHistory r \<Longrightarrow>
   length (maskHistory (mask_step c r)) \<le> maxHistory r"
  by (cases c)
    (simp_all add: saveToHistory_bound undoMask_bound clearMask_history
      invertMask_history drawOnMask_history)

lemma mask_run_bound:
  "length (maskHistory r) \<le> maxHistory r \<Longrightarrow>
   length (maskHistory (mask_run cs r)) \<le> maxHistory r \<and>
   maxHistory (mask_run cs r) = maxHistory r"
proof (induction cs arbitrary: r)
  case Nil
  then show ?case by simp
next
  case (Cons c cs)
  have "length (maskHistory (mask_step c r)) \<le> maxHistory (mask_step c r)"
    using Cons.prems by (simp add: mask_step_bound mask_step_maxHistory)
  then show ?case
    using Cons.IH [of "mask_step c r"] by (simp add: mask_step_maxHistory)
qed

lemma new_ShaderRenderer_history:
  "maxHistory (new_ShaderRenderer w h c) = 10"
  "length (maskHistory (new_ShaderRenderer w h c)) \<le> 10"
  by (simp_all add: new_ShaderRenderer_def initMaskCanvas_def Let_def clearMask_maxHistory
      clearMask_history saveToHistory_def)

text \<open>
  Claim C5. Every call sequence of \<open>saveToHistory\<close>, \<open>undoMask\<close>, \<open>clearMask\<close>, \<open>invertMask\<close>
  and drawing keeps the history within \<open>maxHistory\<close>, which stays what the constructor set
  it to, 10; a renderer as constructed starts within the bound. A save on a full history
  drops the first (oldest) entry and appends the current bitmap after the others, which
  keep their order; a save on a history that is not full only appends.
\<close>

theorem mask_history_bounded:
  "(length (maskHistory r) \<le> maxHistory r \<longrightarrow>
      length (maskHistory (mask_run cs r)) \<le> maxHistory r \<and>
      maxHistory (mask_run cs r) = maxHistory r)
   \<and> maxHistory (new_ShaderRenderer w h c) = 10
   \<and> length (maskHistory (mask_run cs (new_ShaderRenderer w h c))) \<le> 10
   \<and> (maskCtx s \<and> maxHistory s = 10 \<and> length (maskHistory s) = 10 \<longrightarrow>
        maskHistory (saveToHistory s) = tl (maskHistory s) @ [maskCanvas s] \<and>
        length (maskHistory (saveToHistory s)) = 10)
   \<and> (maskCtx t \<and> length (maskHistory t) < maxHistory t \<longrightarrow>
        maskHistory (saveToHistory t) = maskHistory t @ [maskCanvas t])"
proof -
  have a: "length (maskHistory r) \<le> maxHistory r \<longrightarrow>
      length (maskHistory (mask_run cs r)) \<le> maxHistory r \<and>
      maxHistory (mask_run cs r) = maxHistory r"
    using mask_run_bound by blast
  have b: "length (maskHistory (mask_run cs (new_ShaderRenderer w h c))) \<le> 10"
    using mask_run_bound [of "new_ShaderRenderer w h c" cs]
    by (simp add: new_ShaderRenderer_history)
  have d: "maskCtx s \<and> maxHistory s = 10 \<and> length (maskHistory s) = 10 \<longrightarrow>
        maskHistory (saveToHistory s) = tl (maskHistory s) @ [maskCanvas s] \<and>
        length (maskHistory (saveToHistory s)) = 10"
  proof (intro impI)
    assume h: "maskCtx s \<and> maxHistory s = 10 \<and> length (maskHistory s) = 10"
    then have ne: "maskHistory s \<noteq> []"
      by auto
    have "maskHistory (saveToHistory s) = tl (maskHistory s @ [maskCanvas s])"
      using h by (simp add: saveToHistory_history)
    then have "maskHistory (saveToHistory s) = tl (maskHistory s) @ [maskCanvas s]"
      using ne by simp
    then show "maskHistory (saveToHistory s) = tl (maskHistory s) @ [maskCanvas s] \<and>
        length (maskHistory (saveToHistory s)) = 10"
      using h by simp
  qed
  have e: "maskCtx t \<and> length (maskHistory t) < maxHistory t \<longrightarrow>
        maskHistory (saveToHistory t) = maskHistory t @ [maskCanvas t]"
    by (simp add: saveToHistory_history)
  show ?thesis
    using a b d e by (simp add: new_ShaderRenderer_history)
qed

theorem mask_history_bounded_witness:
  "length (maskHistory (new_ShaderRenderer 1 1 True))
     \<le> maxHistory (new_ShaderRenderer 1 1 True)
   \<and> length (maskHistory (mask_run [SaveToHistory, ClearMask, UndoMask, InvertMask (\<lambda>v a. v)]
        (new_ShaderRenderer 1 1 True))) \<le> 10
   \<and> maskCtx \<lparr> maskCanvas = \<lparr> width = 0, height = 0, data = [] \<rparr>, maskCtx = True,
         maskTexture = None,
         maskHistory = map (\<lambda>n. \<lparr> width = n, height = 0, data = [] \<rparr>) [0, 1, 2, 3, 4, 5, 6, 7, 8, 9],
         maxHistory = 10 \<rparr>
   \<and> maskHistory (saveToHistory
        \<lparr> maskCanvas = \<lparr> width = 0, height = 0, data = [] \<rparr>, maskCtx = True,
          maskTexture = None,
          maskHistory = map (\<lambda>n. \<lparr> width = n, height = 0, data = [] \<rparr>) [0, 1, 2, 3, 4, 5, 6, 7, 8, 9],
          maxHistory = 10 \<rparr>)
       = map (\<lambda>n. \<lparr> width = n, height = 0, data = [] \<rparr>) [1, 2, 3, 4, 5, 6, 7, 8, 9, 0]
   \<and> maskHistory (saveToHistory
        \<lparr> maskCanvas = \<lparr> width = 5, height = 0, data = [] \<rparr>, maskCtx = True,
          maskTexture = None, maskHistory = [\<lparr> width = 7, height = 0, data = [] \<rparr>],
          maxHistory = 10 \<rparr>)
       = [\<lparr> width = 7, height = 0, data = [] \<rparr>, \<lparr> width = 5, height = 0, data = [] \<rparr>]"
  using mask_history_bounded
    [of "new_ShaderRenderer 1 1 True" "[SaveToHistory, ClearMask, UndoMask, InvertMask (\<lambda>v a. v)]" 1 1 True
        "\<lparr> maskCanvas = \<lparr> width = 0, height = 0, data = [] \<rparr>, maskCtx = True,
          maskTexture = None,
          maskHistory = map (\<lambda>n. \<lparr> width = n, height = 0, data = [] \<rparr>) [0, 1, 2, 3, 4, 5, 6, 7, 8, 9],
          maxHistory = 10 \<rparr>"
        "\<lparr> maskCanvas = \<lparr> width = 5, height = 0, data = [] \<rparr>, maskCtx = True,
          maskTexture = None, maskHistory = [\<lparr> width = 7, height = 0, data = [] \<rparr>],
          maxHistory = 10 \<rparr>"]
  by (simp add: new_ShaderRenderer_history)



section \<open>Properties of the shader wrapper\<close>

lemma occurs_at_middle: "occurs_at s (p @ s @ q) (length p)"
  by (simp add: occurs_at_def)

lemma occurrences_two:
  assumes "i < j" and "j \<le> length t" and "occurs_at s t i" and "occurs_at s t j"
  shows "2 \<le> length (occurrences s t)"
proof -
  let ?S = "{k. k < Suc (length t) \<and> occurs_at s t k}"
  have len: "length (occurrences s t) = card ?S"
  proof -
    have "length (occurrences s t)
        = card {k. k < length [0..<Suc (length t)] \<and> occurs_at s t ([0..<Suc (length t)] ! k)}"
      unfolding occurrences_def by (rule length_filter_conv_card)
    also have "{k. k < length [0..<Suc (length t)] \<and> occurs_at s t ([0..<Suc (length t)] ! k)} = ?S"
      by (auto simp del: upt_Suc)
    finally show ?thesis .
  qed
  have "{i, j} \<subseteq> ?S"
    using assms by auto
  moreover have "finite ?S"
    by simp
  ultimately have "card {i, j} \<le> card ?S"
    by (rule card_mono [rotated])
  moreover have "card {i, j} = 2"
    using assms(1) by simp
  ultimately show ?thesis
    using len by simp
qed

lemma occurs_at_nth:
  assumes "occurs_at s t i" and "k < length s"
  shows "t ! (i + k) = s ! k"
proof -
  have eq: "take (length s) (drop i t) = s" and le: "i + length s \<le> length t"
    using assms(1) by (simp_all add: occurs_at_def)
  have "take (length s) (drop i t) ! k = s ! k"
    by (simp only: eq)
  moreover have "take (length s) (drop i t) ! k = drop i t ! k"
    using assms(2) by (rule nth_take)
  moreover have "drop i t ! k = t ! (i + k)"
    using le by (intro nth_drop) simp
  ultimately show ?thesis
    by simp
qed

lemma nth_sandwich:
  assumes "c \<notin> set p" and "c \<notin> set q" and "j < length (p @ s @ q)" and "(p @ s @ q) ! j = c"
  shows "length p \<le> j \<and> j < length p + length s \<and> s ! (j - length p) = c"
proof -
  have a: "length p \<le> j"
  proof (rule ccontr)
    assume "\<not> length p \<le> j"
    then have "j < length p" by simp
    then have "(p @ s @ q) ! j = p ! j" and "p ! j \<in> set p"
      by (simp_all add: nth_append)
    then show False
      using assms(1,4) by simp
  qed
  have b: "j < length p + length s"
  proof (rule ccontr)
    assume n: "\<not> j < length p + length s"
    have n1: "\<not> j < length p"
      using a by simp
    have n2: "\<not> j - length p < length s"
      using n a by linarith
    have "(p @ s @ q) ! j = (s @ q) ! (j - length p)"
      using n1 by (simp only: nth_append if_False)
    also have "\<dots> = q ! (j - length p - length s)"
      using n2 by (simp only: nth_append if_False)
    finally have "(p @ s @ q) ! j = q ! (j - length p - length s)" .
    moreover have "j - length p - length s < length q"
      using n assms(3) by simp
    ultimately have "(p @ s @ q) ! j \<in> set q"
      by simp
    then show False
      using assms(2,4) by simp
  qed
  have n1: "\<not> j < length p"
    using a by simp
  have y2: "j - length p < length s"
    using a b by linarith
  have "(p @ s @ q) ! j = (s @ q) ! (j - length p)"
    using n1 by (simp only: nth_append if_False)
  also have "\<dots> = s ! (j - length p)"
    using y2 by (simp only: nth_append if_True)
  finally have "(p @ s @ q) ! j = s ! (j - length p)" .
  then show ?thesis
    using a b assms(4) by simp
qed

lemma occurs_at_unique:
  assumes c: "c \<in> set s" and p: "c \<notin> set p" and q: "c \<notin> set q"
    and occ: "occurs_at s (p @ s @ q) i"
  shows "i = length p"
proof -
  let ?K = "{k. k < length s \<and> s ! k = c}"
  have fin: "finite ?K"
    by simp
  have ne: "?K \<noteq> {}"
    using c by (auto simp add: in_set_conv_nth)
  have shift: "length p \<le> i + k \<and> i + k - length p \<in> ?K" if "k \<in> ?K" for k
  proof -
    from that have k: "k < length s" "s ! k = c"
      by simp_all
    have v: "(p @ s @ q) ! (i + k) = c"
      using occurs_at_nth [OF occ k(1)] k(2) by simp
    have "i + k < length (p @ s @ q)"
      using occ k(1) by (simp add: occurs_at_def)
    from nth_sandwich [OF p q this v]
    have f: "length p \<le> i + k" "i + k < length p + length s" "s ! (i + k - length p) = c"
      by simp_all
    have "i + k - length p < length s"
      using f(1,2) by linarith
    then show ?thesis
      using f by simp
  qed
  show ?thesis
  proof (rule ccontr)
    assume "i \<noteq> length p"
    then consider "i < length p" | "length p < i"
      by linarith
    then show False
    proof cases
      case 1
      have m: "Min ?K \<in> ?K"
        using fin ne by (rule Min_in)
      from shift [OF m] have mem: "i + Min ?K - length p \<in> ?K"
        and le: "length p \<le> i + Min ?K"
        by blast+
      have "Min ?K \<le> i + Min ?K - length p"
        using fin mem by (rule Min_le)
      then show False
        using 1 le by linarith
    next
      case 2
      have m: "Max ?K \<in> ?K"
        using fin ne by (rule Max_in)
      from shift [OF m] have mem: "i + Max ?K - length p \<in> ?K"
        by blast
      have "i + Max ?K - length p \<le> Max ?K"
        using fin mem by (rule Max_ge)
      then show False
        using 2 by linarith
    qed
  qed
qed

lemma filter_upt_single:
  assumes "j < n" and "P j" and "\<And>i. i < n \<Longrightarrow> P i \<Longrightarrow> i = j"
  shows "filter P [0..<n] = [j]"
proof -
  obtain d where n: "n = j + Suc d"
    using assms(1) less_imp_Suc_add by auto
  have "[0..<j + Suc d] = [0..<j] @ [j..<j + Suc d]"
    by (rule upt_add_eq_append) simp
  also have "[j..<j + Suc d] = j # [Suc j..<j + Suc d]"
    by (rule upt_conv_Cons) simp
  finally have split: "[0..<n] = [0..<j] @ j # [Suc j..<n]"
    by (simp only: n)
  have other: "\<not> P x" if "x < n" and "x \<noteq> j" for x
    using assms(3) [of x] that by blast
  have "filter P [0..<j] = []"
    using assms(1) other by (simp add: filter_empty_conv)
  moreover have "filter P [Suc j..<n] = []"
    using other by (simp add: filter_empty_conv)
  ultimately show ?thesis
    using assms(2) by (simp add: split)
qed

lemma occurrences_single:
  assumes "c \<in> set s" and "c \<notin> set p" and "c \<notin> set q"
  shows "occurrences s (p @ s @ q) = [length p]"
  unfolding occurrences_def
proof (rule filter_upt_single)
  show "length p < Suc (length (p @ s @ q))"
    by simp
  show "occurs_at s (p @ s @ q) (length p)"
    by (rule occurs_at_middle)
  show "i = length p" if "i < Suc (length (p @ s @ q))" and "occurs_at s (p @ s @ q) i" for i
    using assms that(2) by (rule occurs_at_unique)
qed

lemma hash_not_in_wrapper:
  "CHR ''#'' \<notin> set wrapper_prefix" "CHR ''#'' \<notin> set wrapper_suffix"
  by (simp_all add: wrapper_prefix_def wrapper_suffix_def unlines_js_def
      wrapper_prefix_lines_def wrapper_suffix_lines_def)

lemma hash_not_in_main_wrapper:
  "CHR ''#'' \<notin> set main_wrapper_prefix" "CHR ''#'' \<notin> set main_wrapper_suffix"
  by (simp_all add: main_wrapper_prefix_def main_wrapper_suffix_def unlines_js_def
      main_wrapper_prefix_lines_def main_wrapper_suffix_lines_def)

lemma fragment_createShaderMaterial:
  "fragmentShader (createShaderMaterial s) = wrapper_prefix @ s @ wrapper_suffix"
  by (simp add: createShaderMaterial_def wrapped_template_def)

lemma fragment_main_createShaderMaterial:
  "fragmentShader (main_createShaderMaterial s) = main_wrapper_prefix @ s @ main_wrapper_suffix"
  by (simp add: main_createShaderMaterial_def main_wrapped_template_def)

lemma wrapper_prefix_starts: "wrapper_prefix = CHR 0x0A # tl wrapper_prefix"
  by (simp add: wrapper_prefix_def)

text \<open>
  Claim C3, as stated, fails in its last part: the body is put in once, yet it can occur
  in the result more than once, since it may also occur in the fixed text. A body that is
  a single newline occurs at offset 0 of the result and again where it was put in.
\<close>

theorem wrapper_body_once_counterexample:
  "length (occurrences ''\<newline>'' (fragmentShader (createShaderMaterial ''\<newline>''))) \<noteq> 1"
proof -
  let ?t = "fragmentShader (createShaderMaterial ''\<newline>'')"
  have t: "?t = wrapper_prefix @ ''\<newline>'' @ wrapper_suffix"
    by (rule fragment_createShaderMaterial)
  have pos: "0 < length wrapper_prefix"
    by (subst wrapper_prefix_starts) simp
  have at0: "occurs_at ''\<newline>'' ?t 0"
    unfolding t by (subst wrapper_prefix_starts) (simp add: occurs_at_def)
  have atp: "occurs_at ''\<newline>'' ?t (length wrapper_prefix)"
    unfolding t by (rule occurs_at_middle)
  have le: "length wrapper_prefix \<le> length ?t"
    unfolding t by simp
  have "2 \<le> length (occurrences ''\<newline>'' ?t)"
    using pos le at0 atp by (rule occurrences_two)
  then show ?thesis
    by simp
qed

text \<open>
  Claim C3, amended. For every shader body \<open>s\<close> the fragment shader that
  \<open>createShaderMaterial\<close> builds is the fixed prefix, then \<open>s\<close>, then the fixed suffix, in
  the renderer and in the earlier renderer of \<open>main.js\<close> alike; the template has exactly one
  substitution, so \<open>s\<close> stands verbatim at the offset where the prefix ends. This is the
  only occurrence of \<open>s\<close> in the result whenever \<open>s\<close> contains a character that occurs in
  neither fixed text. The vertex shader does not depend on \<open>s\<close>.
\<close>

theorem wrapper_composition:
  "fragmentShader (createShaderMaterial s) = wrapper_prefix @ s @ wrapper_suffix
   \<and> fragmentShader (main_createShaderMaterial s)
       = main_wrapper_prefix @ s @ main_wrapper_suffix
   \<and> occurs_at s (fragmentShader (createShaderMaterial s)) (length wrapper_prefix)
   \<and> occurs_at s (fragmentShader (main_createShaderMaterial s)) (length main_wrapper_prefix)
   \<and> length (filter (\<lambda>p. p = Subst) wrapped_template) = 1
   \<and> length (filter (\<lambda>p. p = Subst) main_wrapped_template) = 1
   \<and> (c \<in> set s \<and> c \<notin> set wrapper_prefix \<and> c \<notin> set wrapper_suffix \<longrightarrow>
        occurrences s (fragmentShader (createShaderMaterial s)) = [length wrapper_prefix])
   \<and> (c \<in> set s \<and> c \<notin> set main_wrapper_prefix \<and> c \<notin> set main_wrapper_suffix \<longrightarrow>
        occurrences s (fragmentShader (main_createShaderMaterial s))
          = [length main_wrapper_prefix])
   \<and> vertexShader (createShaderMaterial s) = vertexShader_text
   \<and> vertexShader (main_createShaderMaterial s) = vertexShader_text"
proof -
  have "length (filter (\<lambda>p. p = Subst) wrapped_template) = 1"
    by (simp add: wrapped_template_def)
  moreover have "length (filter (\<lambda>p. p = Subst) main_wrapped_template) = 1"
    by (simp add: main_wrapped_template_def)
  moreover have "vertexShader (createShaderMaterial s) = vertexShader_text"
    by (simp add: createShaderMaterial_def)
  moreover have "vertexShader (main_createShaderMaterial s) = vertexShader_text"
    by (simp add: main_createShaderMaterial_def)
  moreover have "c \<in> set s \<and> c \<notin> set wrapper_prefix \<and> c \<notin> set wrapper_suffix \<longrightarrow>
        occurrences s (fragmentShader (createShaderMaterial s)) = [length wrapper_prefix]"
    unfolding fragment_createShaderMaterial by (blast intro: occurrences_single)
  moreover have "c \<in> set s \<and> c \<notin> set main_wrapper_prefix \<and> c \<notin> set main_wrapper_suffix \<longrightarrow>
        occurrences s (fragmentShader (main_createShaderMaterial s))
          = [length main_wrapper_prefix]"
    unfolding fragment_main_createShaderMaterial by (blast intro: occurrences_single)
  ultimately show ?thesis
    by (simp add: fragment_createShaderMaterial fragment_main_createShaderMaterial
        occurs_at_middle)
qed

theorem wrapper_composition_witness:
  "CHR ''#'' \<in> set ''#define T iTime''
   \<and> CHR ''#'' \<notin> set wrapper_prefix \<and> CHR ''#'' \<notin> set wrapper_suffix
   \<and> CHR ''#'' \<notin> set main_wrapper_prefix \<and> CHR ''#'' \<notin> set main_wrapper_suffix
   \<and> fragmentShader (createShaderMaterial ''#define T iTime'')
       = wrapper_prefix @ ''#define T iTime'' @ wrapper_suffix
   \<and> occurrences ''#define T iTime'' (fragmentShader (createShaderMaterial ''#define T iTime''))
       = [length wrapper_prefix]
   \<and> occurrences ''#define T iTime''
        (fragmentShader (main_createShaderMaterial ''#define T iTime''))
       = [length main_wrapper_prefix]"
proof -
  have m: "CHR ''#'' \<in> set ''#define T iTime''"
    by simp
  show ?thesis
    using wrapper_composition [of "''#define T iTime''" "CHR ''#''"] m
      hash_not_in_wrapper hash_not_in_main_wrapper
    by blast
qed

section \<open>Properties of the camera input\<close>











section \<open>Properties of the point-in-quad test\<close>

lemma crossSign_rotate: "crossSign a b c = crossSign b c a"
  by (simp add: crossSign_def algebra_simps)

lemma crossSign_swap: "crossSign b a p = - crossSign a b p"
  by (simp add: crossSign_def algebra_simps)

lemma crossSign_triangle:
  "crossSign a b p + crossSign b c p + crossSign c a p = crossSign a b c"
  by (simp add: crossSign_def algebra_simps)

lemma crossSign_quad:
  "crossSign a b p + crossSign b c p + crossSign c d p + crossSign d a p
     = crossSign a b c + crossSign c d a"
  by (simp add: crossSign_def algebra_simps)

lemma crossSign_combination:
  assumes "a + b + c + d = 1"
    and "fst p = a * fst tl' + b * fst tr' + c * fst br' + d * fst bl'"
    and "snd p = a * snd tl' + b * snd tr' + c * snd br' + d * snd bl'"
  shows "crossSign u v p =
     a * crossSign u v tl' + b * crossSign u v tr' + c * crossSign u v br' + d * crossSign u v bl'"
proof -
  have d: "d = 1 - a - b - c" using assms(1) by simp
  show ?thesis
    unfolding crossSign_def assms(2,3) d by (simp add: algebra_simps)
qed

lemma barycentric_fst:
  "crossSign b c p * fst a + crossSign c a p * fst b + crossSign a b p * fst c
     = crossSign a b c * fst p"
  by (simp add: crossSign_def algebra_simps)

lemma barycentric_snd:
  "crossSign b c p * snd a + crossSign c a p * snd b + crossSign a b p * snd c
     = crossSign a b c * snd p"
  by (simp add: crossSign_def algebra_simps)

lemma in_triangle:
  assumes "0 < crossSign a b c"
    and "0 \<le> crossSign a b p" and "0 \<le> crossSign b c p" and "0 \<le> crossSign c a p"
  shows "\<exists>u v w. 0 \<le> u \<and> 0 \<le> v \<and> 0 \<le> w \<and> u + v + w = 1 \<and>
      fst p = u * fst a + v * fst b + w * fst c \<and>
      snd p = u * snd a + v * snd b + w * snd c"
proof -
  let ?t = "crossSign a b c"
  let ?u = "crossSign b c p / ?t" and ?v = "crossSign c a p / ?t" and ?w = "crossSign a b p / ?t"
  have t: "?t \<noteq> 0" using assms(1) by simp
  have "0 \<le> ?u" "0 \<le> ?v" "0 \<le> ?w"
    using assms by simp_all
  moreover have "?u + ?v + ?w = 1"
  proof -
    have "?u + ?v + ?w = (crossSign a b p + crossSign b c p + crossSign c a p) / ?t"
      by (simp add: add_divide_distrib)
    then show ?thesis using t by (simp add: crossSign_triangle)
  qed
  moreover have "fst p = ?u * fst a + ?v * fst b + ?w * fst c"
  proof -
    have "?u * fst a + ?v * fst b + ?w * fst c
        = (crossSign b c p * fst a + crossSign c a p * fst b + crossSign a b p * fst c) / ?t"
      by (simp add: add_divide_distrib)
    then show ?thesis using t by (simp add: barycentric_fst)
  qed
  moreover have "snd p = ?u * snd a + ?v * snd b + ?w * snd c"
  proof -
    have "?u * snd a + ?v * snd b + ?w * snd c
        = (crossSign b c p * snd a + crossSign c a p * snd b + crossSign a b p * snd c) / ?t"
      by (simp add: add_divide_distrib)
    then show ?thesis using t by (simp add: barycentric_snd)
  qed
  ultimately show ?thesis by blast
qed


lemma crossSign_self: "crossSign a b a = 0" "crossSign a b b = 0"
  by (simp_all add: crossSign_def)

lemma pointInQuad_signs:
  "pointInQuad p tl' tr' br' bl' =
     ((0 \<le> crossSign tl' tr' p \<and> 0 \<le> crossSign tr' br' p \<and>
       0 \<le> crossSign br' bl' p \<and> 0 \<le> crossSign bl' tl' p) \<or>
      (crossSign tl' tr' p \<le> 0 \<and> crossSign tr' br' p \<le> 0 \<and>
       crossSign br' bl' p \<le> 0 \<and> crossSign bl' tl' p \<le> 0))"
  unfolding pointInQuad_def Let_def by auto

lemma ccw_not_all_right:
  assumes "counterclockwise tl' tr' br' bl'"
    and "crossSign tl' tr' p \<le> 0" and "crossSign tr' br' p \<le> 0"
    and "crossSign br' bl' p \<le> 0" and "crossSign bl' tl' p \<le> 0"
  shows False
proof -
  have "crossSign tl' tr' p + crossSign tr' br' p + crossSign br' bl' p + crossSign bl' tl' p
      = crossSign tl' tr' br' + crossSign br' bl' tl'"
    by (rule crossSign_quad)
  moreover have "0 < crossSign tl' tr' br' + crossSign br' bl' tl'"
    using assms(1) by (simp add: counterclockwise_def)
  ultimately show False
    using assms(2-5) by linarith
qed

lemma hull_imp_left:
  assumes ccw: "counterclockwise tl' tr' br' bl'"
    and hull: "in_closed_quad p tl' tr' br' bl'"
  shows "0 \<le> crossSign tl' tr' p \<and> 0 \<le> crossSign tr' br' p \<and>
       0 \<le> crossSign br' bl' p \<and> 0 \<le> crossSign bl' tl' p"
proof -
  from hull obtain a b c d where nn: "0 \<le> a" "0 \<le> b" "0 \<le> c" "0 \<le> d"
    and s: "a + b + c + d = 1"
    and x: "fst p = a * fst tl' + b * fst tr' + c * fst br' + d * fst bl'"
    and y: "snd p = a * snd tl' + b * snd tr' + c * snd br' + d * snd bl'"
    unfolding in_closed_quad_def by blast
  note comb = crossSign_combination [OF s x y]
  have t1: "0 \<le> crossSign tl' tr' br'" and t2: "0 \<le> crossSign tr' br' bl'"
    and t3: "0 \<le> crossSign br' bl' tl'" and t4: "0 \<le> crossSign bl' tl' tr'"
    using ccw by (simp_all add: counterclockwise_def)
  have "crossSign tl' tr' p = c * crossSign tl' tr' br' + d * crossSign bl' tl' tr'"
    by (simp add: comb crossSign_self crossSign_rotate [of bl' tl' tr'])
  then have d1: "0 \<le> crossSign tl' tr' p"
    using nn t1 t4 by simp
  have "crossSign tr' br' p = a * crossSign tl' tr' br' + d * crossSign tr' br' bl'"
    by (simp add: comb crossSign_self crossSign_rotate [of tl' tr' br'])
  then have d2: "0 \<le> crossSign tr' br' p"
    using nn t1 t2 by simp
  have "crossSign br' bl' p = a * crossSign br' bl' tl' + b * crossSign tr' br' bl'"
    by (simp add: comb crossSign_self crossSign_rotate [of tr' br' bl'])
  then have d3: "0 \<le> crossSign br' bl' p"
    using nn t3 t2 by simp
  have "crossSign bl' tl' p = b * crossSign bl' tl' tr' + c * crossSign br' bl' tl'"
    by (simp add: comb crossSign_self crossSign_rotate [of br' bl' tl'])
  then have d4: "0 \<le> crossSign bl' tl' p"
    using nn t4 t3 by simp
  show ?thesis
    using d1 d2 d3 d4 by simp
qed

lemma left_imp_hull:
  assumes ccw: "counterclockwise tl' tr' br' bl'"
    and d1: "0 \<le> crossSign tl' tr' p" and d2: "0 \<le> crossSign tr' br' p"
    and d3: "0 \<le> crossSign br' bl' p" and d4: "0 \<le> crossSign bl' tl' p"
  shows "in_closed_quad p tl' tr' br' bl'"
proof -
  let ?e = "crossSign tl' br' p"
  have t1: "0 \<le> crossSign tl' tr' br'" and t3: "0 \<le> crossSign br' bl' tl'"
    and area: "0 < crossSign tl' tr' br' + crossSign br' bl' tl'"
    using ccw by (simp_all add: counterclockwise_def)
  have upper: "crossSign tl' tr' p + crossSign tr' br' p - ?e = crossSign tl' tr' br'"
    using crossSign_triangle [of tl' tr' p br'] by (simp add: crossSign_swap [of br' tl'])
  have lower: "?e + crossSign br' bl' p + crossSign bl' tl' p = crossSign br' bl' tl'"
    using crossSign_triangle [of tl' br' p bl'] by (simp add: crossSign_rotate [of tl' br' bl'])
  consider (A) "0 < crossSign tl' tr' br'" "?e \<le> 0" | (B) "0 < crossSign br' bl' tl'" "0 \<le> ?e"
    using t1 t3 area upper lower d1 d2 d3 d4 by linarith
  then show ?thesis
  proof cases
    case A
    have "0 \<le> crossSign br' tl' p"
      using A(2) by (simp add: crossSign_swap [of br' tl'])
    with A(1) d1 d2 obtain u v w where "0 \<le> u" "0 \<le> v" "0 \<le> w" "u + v + w = 1"
      "fst p = u * fst tl' + v * fst tr' + w * fst br'"
      "snd p = u * snd tl' + v * snd tr' + w * snd br'"
      using in_triangle [of tl' tr' br' p] by blast
    then have "0 \<le> u \<and> 0 \<le> v \<and> 0 \<le> w \<and> 0 \<le> (0::real) \<and> u + v + w + 0 = 1 \<and>
        fst p = u * fst tl' + v * fst tr' + w * fst br' + 0 * fst bl' \<and>
        snd p = u * snd tl' + v * snd tr' + w * snd br' + 0 * snd bl'"
      by simp
    then show ?thesis
      unfolding in_closed_quad_def by blast
  next
    case B
    have "0 < crossSign tl' br' bl'"
      using B(1) by (simp add: crossSign_rotate [of tl' br' bl'])
    with B(2) d3 d4 obtain u v w where "0 \<le> u" "0 \<le> v" "0 \<le> w" "u + v + w = 1"
      "fst p = u * fst tl' + v * fst br' + w * fst bl'"
      "snd p = u * snd tl' + v * snd br' + w * snd bl'"
      using in_triangle [of tl' br' bl' p] by blast
    then have "0 \<le> u \<and> 0 \<le> (0::real) \<and> 0 \<le> v \<and> 0 \<le> w \<and> u + 0 + v + w = 1 \<and>
        fst p = u * fst tl' + 0 * fst tr' + v * fst br' + w * fst bl' \<and>
        snd p = u * snd tl' + 0 * snd tr' + v * snd br' + w * snd bl'"
      by simp
    then show ?thesis
      unfolding in_closed_quad_def by blast
  qed
qed

lemma ccw_pointInQuad:
  assumes "counterclockwise tl' tr' br' bl'"
  shows "pointInQuad p tl' tr' br' bl' = in_closed_quad p tl' tr' br' bl'"
proof
  assume "pointInQuad p tl' tr' br' bl'"
  then have "0 \<le> crossSign tl' tr' p \<and> 0 \<le> crossSign tr' br' p \<and>
       0 \<le> crossSign br' bl' p \<and> 0 \<le> crossSign bl' tl' p"
    using ccw_not_all_right [OF assms, of p] by (auto simp add: pointInQuad_signs)
  then show "in_closed_quad p tl' tr' br' bl'"
    using left_imp_hull [OF assms] by blast
next
  assume "in_closed_quad p tl' tr' br' bl'"
  then show "pointInQuad p tl' tr' br' bl'"
    using hull_imp_left [OF assms] by (simp add: pointInQuad_signs)
qed

lemma pointInQuad_reverse: "pointInQuad p bl' br' tr' tl' = pointInQuad p tl' tr' br' bl'"
  unfolding pointInQuad_signs
  by (simp add: crossSign_swap [of bl' br'] crossSign_swap [of br' tr'] crossSign_swap [of tr' tl']
      crossSign_swap [of tl' bl']) blast

lemma in_closed_quad_reverse:
  "in_closed_quad p bl' br' tr' tl' \<Longrightarrow> in_closed_quad p tl' tr' br' bl'"
proof -
  assume "in_closed_quad p bl' br' tr' tl'"
  then obtain a b c d where "0 \<le> a" "0 \<le> b" "0 \<le> c" "0 \<le> d" "a + b + c + d = 1"
    "fst p = a * fst bl' + b * fst br' + c * fst tr' + d * fst tl'"
    "snd p = a * snd bl' + b * snd br' + c * snd tr' + d * snd tl'"
    unfolding in_closed_quad_def by blast
  then have "0 \<le> d \<and> 0 \<le> c \<and> 0 \<le> b \<and> 0 \<le> a \<and> d + c + b + a = 1 \<and>
      fst p = d * fst tl' + c * fst tr' + b * fst br' + a * fst bl' \<and>
      snd p = d * snd tl' + c * snd tr' + b * snd br' + a * snd bl'"
    by simp
  then show ?thesis
    unfolding in_closed_quad_def by blast
qed

text \<open>
  Claim C1. For a convex quadrilateral with corners \<open>tl\<close>, \<open>tr\<close>, \<open>br\<close>, \<open>bl\<close> in a consistent
  winding order and every point \<open>p\<close>, \<open>pointInQuad\<close> is true exactly when \<open>p\<close> is a convex
  combination of the corners, that is, lies inside the quadrilateral or on its boundary.
\<close>

theorem pointInQuad_correct:
  assumes "convex_quad tl' tr' br' bl'"
  shows "pointInQuad p tl' tr' br' bl' = in_closed_quad p tl' tr' br' bl'"
proof -
  consider "counterclockwise tl' tr' br' bl'" | "counterclockwise bl' br' tr' tl'"
    using assms unfolding convex_quad_def by blast
  then show ?thesis
  proof cases
    case 1
    then show ?thesis by (rule ccw_pointInQuad)
  next
    case 2
    have "pointInQuad p tl' tr' br' bl' = pointInQuad p bl' br' tr' tl'"
      by (simp add: pointInQuad_reverse)
    also have "\<dots> = in_closed_quad p bl' br' tr' tl'"
      using 2 by (rule ccw_pointInQuad)
    also have "\<dots> = in_closed_quad p tl' tr' br' bl'"
      using in_closed_quad_reverse [of p bl' br' tr' tl'] in_closed_quad_reverse [of p tl' tr' br' bl']
      by blast
    finally show ?thesis .
  qed
qed

theorem pointInQuad_correct_witness:
  "convex_quad (0, 0) (1, 0) (1, 1) (0, 1)
   \<and> pointInQuad (1 / 2, 1 / 4) (0, 0) (1, 0) (1, 1) (0, 1)
   \<and> in_closed_quad (1 / 2, 1 / 4) (0, 0) (1, 0) (1, 1) (0, 1)
   \<and> \<not> pointInQuad (3 / 2, 1 / 4) (0, 0) (1, 0) (1, 1) (0, 1)
   \<and> \<not> in_closed_quad (3 / 2, 1 / 4) (0, 0) (1, 0) (1, 1) (0, 1)"
proof -
  have c: "convex_quad (0, 0) (1, 0) (1, 1) (0, 1)"
    by (simp add: convex_quad_def counterclockwise_def crossSign_def)
  have i: "pointInQuad (1 / 2, 1 / 4) (0, 0) (1, 0) (1, 1) (0, 1)"
    by (simp add: pointInQuad_def crossSign_def)
  have o: "\<not> pointInQuad (3 / 2, 1 / 4) (0, 0) (1, 0) (1, 1) (0, 1)"
    by (simp add: pointInQuad_def crossSign_def)
  show ?thesis
    using c i o pointInQuad_correct [OF c, of "(1 / 2, 1 / 4)"]
      pointInQuad_correct [OF c, of "(3 / 2, 1 / 4)"]
    by simp
qed

section \<open>Properties of the HSL conversions\<close>

lemma glsl_mod_2:
  assumes "2 * of_int k \<le> x" and "x < 2 * of_int k + 2"
  shows "glsl_mod x 2 = x - 2 * of_int k"
proof -
  have "\<lfloor>x / 2\<rfloor> = k"
    using assms by (intro floor_unique) simp_all
  then show ?thesis
    by (simp add: glsl_mod_def)
qed

lemma glsl_mod_2_0: "0 \<le> x \<Longrightarrow> x < 2 \<Longrightarrow> glsl_mod x 2 = x"
  using glsl_mod_2 [of 0 x] by simp

lemma glsl_mod_2_1: "2 \<le> x \<Longrightarrow> x < 4 \<Longrightarrow> glsl_mod x 2 = x - 2"
  using glsl_mod_2 [of 1 x] by simp

lemma glsl_mod_2_2: "4 \<le> x \<Longrightarrow> x < 6 \<Longrightarrow> glsl_mod x 2 = x - 4"
  using glsl_mod_2 [of 2 x] by simp

lemma hsl2rgb_chroma:
  fixes mx mn :: real
  assumes "0 < mx - mn" and "0 \<le> mn" and "mx \<le> 1"
  defines "l \<equiv> (mx + mn) / 2"
  defines "s \<equiv> (if l > 0.5 then (mx - mn) / (2 - mx - mn) else (mx - mn) / (mx + mn))"
  shows "(1 - \<bar>2 * l - 1\<bar>) * s = mx - mn" and "l - (mx - mn) / 2 = mn"
proof -
  show "l - (mx - mn) / 2 = mn"
    by (simp add: l_def field_simps)
  show "(1 - \<bar>2 * l - 1\<bar>) * s = mx - mn"
  proof (cases "l > 0.5")
    case True
    then have "mx + mn > 1" by (simp add: l_def)
    moreover from this assms(1,3) have "2 - mx - mn \<noteq> 0" by linarith
    ultimately show ?thesis
      using True by (simp add: s_def l_def field_simps)
  next
    case False
    then have "mx + mn \<le> 1" by (simp add: l_def)
    moreover have "mx + mn \<noteq> 0" using assms(1,2) by linarith
    ultimately show ?thesis
      using False by (simp add: s_def l_def field_simps)
  qed
qed

lemma hsl2rgb_sextant:
  assumes "(1 - \<bar>2 * l - 1\<bar>) * s = c" and "l - c / 2 = m"
  shows "hsl2rgb (t / 6, s, l) = sextant t c m"
  by (simp add: hsl2rgb_def sextant_def Let_def assms)

lemma sextant_0:
  assumes "0 \<le> t" and "t < 1" and "c * t = x"
  shows "sextant t c m = (c + m, x + m, m)"
proof -
  have gm: "glsl_mod t 2 = t"
    using assms(1,2) by (simp add: glsl_mod_2_0)
  have "c * (1 - \<bar>t - 1\<bar>) = x"
    using assms by (simp add: abs_if algebra_simps)
  then show ?thesis
    using assms(1,2) by (simp add: sextant_def gm)
qed

lemma sextant_1:
  assumes "1 \<le> t" and "t < 2" and "c * (2 - t) = x"
  shows "sextant t c m = (x + m, c + m, m)"
proof -
  have gm: "glsl_mod t 2 = t"
    using assms(1,2) by (simp add: glsl_mod_2_0)
  have "c * (1 - \<bar>t - 1\<bar>) = x"
    using assms by (simp add: abs_if algebra_simps)
  then show ?thesis
    using assms(1,2) by (simp add: sextant_def gm)
qed

lemma sextant_2:
  assumes "2 \<le> t" and "t < 3" and "c * (t - 2) = x"
  shows "sextant t c m = (m, c + m, x + m)"
proof -
  have gm: "glsl_mod t 2 = t - 2"
    using assms(1,2) by (simp add: glsl_mod_2_1)
  have "c * (1 - \<bar>t - 2 - 1\<bar>) = x"
    using assms by (simp add: abs_if algebra_simps)
  then show ?thesis
    using assms(1,2) by (simp add: sextant_def gm)
qed

lemma sextant_3:
  assumes "3 \<le> t" and "t < 4" and "c * (4 - t) = x"
  shows "sextant t c m = (m, x + m, c + m)"
proof -
  have gm: "glsl_mod t 2 = t - 2"
    using assms(1,2) by (simp add: glsl_mod_2_1)
  have "c * (1 - \<bar>t - 2 - 1\<bar>) = x"
    using assms by (simp add: abs_if algebra_simps)
  then show ?thesis
    using assms(1,2) by (simp add: sextant_def gm)
qed

lemma sextant_4:
  assumes "4 \<le> t" and "t < 5" and "c * (t - 4) = x"
  shows "sextant t c m = (x + m, m, c + m)"
proof -
  have gm: "glsl_mod t 2 = t - 4"
    using assms(1,2) by (simp add: glsl_mod_2_2)
  have "c * (1 - \<bar>t - 4 - 1\<bar>) = x"
    using assms by (simp add: abs_if algebra_simps)
  then show ?thesis
    using assms(1,2) by (simp add: sextant_def gm)
qed

lemma sextant_5:
  assumes "5 \<le> t" and "t < 6" and "c * (6 - t) = x"
  shows "sextant t c m = (c + m, m, x + m)"
proof -
  have gm: "glsl_mod t 2 = t - 4"
    using assms(1,2) by (simp add: glsl_mod_2_2)
  have "c * (1 - \<bar>t - 4 - 1\<bar>) = x"
    using assms by (simp add: abs_if algebra_simps)
  then show ?thesis
    using assms(1,2) by (simp add: sextant_def gm)
qed

lemma rgb2hsl_gray: "rgb2hsl (v, v, v) = (0, 0, v)"
  by (simp add: rgb2hsl_def)

lemma hsl2rgb_gray: "hsl2rgb (0, 0, v) = (v, v, v)"
  by (simp add: hsl2rgb_def)

lemma rgb2hsl_chromatic:
  assumes "max (max r g) b \<noteq> min (min r g) b"
  shows "rgb2hsl (r, g, b) =
     ((if r = max (max r g) b then (g - b) / (max (max r g) b - min (min r g) b) + (if g < b then 6 else 0)
       else if g = max (max r g) b then (b - r) / (max (max r g) b - min (min r g) b) + 2
       else (r - g) / (max (max r g) b - min (min r g) b) + 4) / 6,
      (if (max (max r g) b + min (min r g) b) / 2 > 0.5
       then (max (max r g) b - min (min r g) b) / (2 - max (max r g) b - min (min r g) b)
       else (max (max r g) b - min (min r g) b) / (max (max r g) b + min (min r g) b)),
      (max (max r g) b + min (min r g) b) / 2)"
  using assms by (simp add: rgb2hsl_def Let_def)

lemma roundtrip_chromatic:
  fixes r g b :: real
  assumes ne: "max (max r g) b \<noteq> min (min r g) b"
    and lo: "0 \<le> min (min r g) b" and hi: "max (max r g) b \<le> 1"
  shows "hsl2rgb (rgb2hsl (r, g, b)) = (r, g, b)"
proof -
  define mx where "mx = max (max r g) b"
  define mn where "mn = min (min r g) b"
  define t where "t = (if r = mx then (g - b) / (mx - mn) + (if g < b then 6 else 0)
       else if g = mx then (b - r) / (mx - mn) + 2
       else (r - g) / (mx - mn) + 4)"
  define l where "l = (mx + mn) / 2"
  define s where "s = (if l > 0.5 then (mx - mn) / (2 - mx - mn) else (mx - mn) / (mx + mn))"
  have d: "0 < mx - mn"
    using ne unfolding mx_def mn_def by (simp add: max_def min_def split: if_splits)
  have rgb: "rgb2hsl (r, g, b) = (t / 6, s, l)"
    using rgb2hsl_chromatic [OF ne] by (simp add: t_def s_def l_def mx_def mn_def)
  have lo': "0 \<le> mn"
    using lo by (simp only: mn_def)
  have hi': "mx \<le> 1"
    using hi by (simp only: mx_def)
  have c: "(1 - \<bar>2 * l - 1\<bar>) * s = mx - mn"
    unfolding l_def s_def by (rule hsl2rgb_chroma(1) [OF d lo' hi'])
  have m: "l - (mx - mn) / 2 = mn"
    unfolding l_def by (rule hsl2rgb_chroma(2) [OF d lo' hi'])
  have step: "hsl2rgb (rgb2hsl (r, g, b)) = sextant t (mx - mn) mn"
    unfolding rgb using c m by (rule hsl2rgb_sextant)
  have dn: "mx - mn \<noteq> 0"
    using d by simp
  have nontriv: "\<not> (r = g \<and> g = b)"
    using d unfolding mx_def mn_def by auto
  consider (r_gb) "b \<le> g" "g < r"
    | (rg_b) "g = r" "b < r"
    | (r_bg) "g < b" "b \<le> r"
    | (g_br) "r \<le> b" "b < g"
    | (gb_r) "b = g" "r < g"
    | (g_rb) "b < r" "r < g"
    | (b_rg) "g \<le> r" "r < b"
    | (b_gr) "r < g" "g < b"
    using nontriv by argo
  then show ?thesis
  proof cases
    case r_gb
    have ext: "mx = r" "mn = b"
      using r_gb by (simp_all add: mx_def mn_def)
    have tv: "t = (g - b) / (r - b)"
      using r_gb by (simp add: t_def ext)
    have "0 \<le> t" "t < 1" "(mx - mn) * t = g - b"
      using r_gb d by (simp_all add: tv ext)
    then have "sextant t (mx - mn) mn = (mx - mn + mn, g - b + mn, mn)"
      by (rule sextant_0)
    then show ?thesis
      unfolding step using r_gb by (simp add: ext)
  next
    case rg_b
    have ext: "mx = r" "mn = b"
      using rg_b by (simp_all add: mx_def mn_def)
    have tv: "t = 1"
      using rg_b d by (simp add: t_def ext)
    have "1 \<le> t" "t < 2" "(mx - mn) * (2 - t) = mx - mn"
      by (simp_all add: tv ext)
    then have "sextant t (mx - mn) mn = (mx - mn + mn, mx - mn + mn, mn)"
      by (rule sextant_1)
    then show ?thesis
      unfolding step using rg_b by (simp add: ext)
  next
    case r_bg
    have ext: "mx = r" "mn = g"
      using r_bg by (simp_all add: mx_def mn_def)
    have tv: "t = (g - b) / (r - g) + 6"
      using r_bg by (simp add: t_def ext)
    have "5 \<le> t" "t < 6" "(mx - mn) * (6 - t) = b - g"
      using r_bg d by (simp_all add: tv ext field_simps)
    then have "sextant t (mx - mn) mn = (mx - mn + mn, mn, b - g + mn)"
      by (rule sextant_5)
    then show ?thesis
      unfolding step using r_bg by (simp add: ext)
  next
    case g_br
    have ext: "mx = g" "mn = r"
      using g_br by (simp_all add: mx_def mn_def)
    have tv: "t = (b - r) / (g - r) + 2"
      using g_br by (simp add: t_def ext)
    have "2 \<le> t" "t < 3" "(mx - mn) * (t - 2) = b - r"
      using g_br d by (simp_all add: tv ext field_simps)
    then have "sextant t (mx - mn) mn = (mn, mx - mn + mn, b - r + mn)"
      by (rule sextant_2)
    then show ?thesis
      unfolding step using g_br by (simp add: ext)
  next
    case gb_r
    have ext: "mx = g" "mn = r"
      using gb_r by (simp_all add: mx_def mn_def)
    have tv: "t = 3"
      using gb_r d by (simp add: t_def ext)
    have "3 \<le> t" "t < 4" "(mx - mn) * (4 - t) = mx - mn"
      by (simp_all add: tv ext)
    then have "sextant t (mx - mn) mn = (mn, mx - mn + mn, mx - mn + mn)"
      by (rule sextant_3)
    then show ?thesis
      unfolding step using gb_r by (simp add: ext)
  next
    case g_rb
    have ext: "mx = g" "mn = b"
      using g_rb by (simp_all add: mx_def mn_def)
    have tv: "t = (b - r) / (g - b) + 2"
      using g_rb by (simp add: t_def ext)
    have "1 \<le> t" "t < 2" "(mx - mn) * (2 - t) = r - b"
      using g_rb d by (simp_all add: tv ext field_simps)
    then have "sextant t (mx - mn) mn = (r - b + mn, mx - mn + mn, mn)"
      by (rule sextant_1)
    then show ?thesis
      unfolding step using g_rb by (simp add: ext)
  next
    case b_rg
    have ext: "mx = b" "mn = g"
      using b_rg by (simp_all add: mx_def mn_def)
    have tv: "t = (r - g) / (b - g) + 4"
      using b_rg by (simp add: t_def ext)
    have "4 \<le> t" "t < 5" "(mx - mn) * (t - 4) = r - g"
      using b_rg d by (simp_all add: tv ext field_simps)
    then have "sextant t (mx - mn) mn = (r - g + mn, mn, mx - mn + mn)"
      by (rule sextant_4)
    then show ?thesis
      unfolding step using b_rg by (simp add: ext)
  next
    case b_gr
    have ext: "mx = b" "mn = r"
      using b_gr by (simp_all add: mx_def mn_def)
    have tv: "t = (r - g) / (b - r) + 4"
      using b_gr by (simp add: t_def ext)
    have "3 \<le> t" "t < 4" "(mx - mn) * (4 - t) = g - r"
      using b_gr d by (simp_all add: tv ext field_simps)
    then have "sextant t (mx - mn) mn = (mn, g - r + mn, mx - mn + mn)"
      by (rule sextant_3)
    then show ?thesis
      unfolding step using b_gr by (simp add: ext)
  qed
qed

text \<open>
  Claim C2. For every RGB colour whose components lie in \<open>[0, 1]\<close>, converting to HSL
  and back gives the colour again, in exact real arithmetic.
\<close>

theorem hsl_roundtrip:
  assumes "unit_color color"
  shows "hsl2rgb (rgb2hsl color) = color"
proof -
  obtain r g b where col: "color = (r, g, b)"
    by (cases color) auto
  have bounds: "0 \<le> r" "r \<le> 1" "0 \<le> g" "g \<le> 1" "0 \<le> b" "b \<le> 1"
    using assms by (simp_all add: col unit_color_def)
  show ?thesis
  proof (cases "max (max r g) b = min (min r g) b")
    case True
    then have "g = r" "b = r"
      by (simp_all add: max_def min_def split: if_splits)
    then show ?thesis
      by (simp add: col rgb2hsl_gray hsl2rgb_gray)
  next
    case False
    moreover have "0 \<le> min (min r g) b" and "max (max r g) b \<le> 1"
      using bounds by simp_all
    ultimately show ?thesis
      unfolding col by (rule roundtrip_chromatic)
  qed
qed

theorem hsl_roundtrip_witness:
  "unit_color (1 / 2, 1 / 4, 3 / 4)
   \<and> rgb2hsl (1 / 2, 1 / 4, 3 / 4) = (3 / 4, 1 / 2, 1 / 2)
   \<and> hsl2rgb (3 / 4, 1 / 2, 1 / 2) = (1 / 2, 1 / 4, 3 / 4)"
proof -
  have u: "unit_color (1 / 2, 1 / 4, 3 / 4)"
    by (simp add: unit_color_def)
  have v: "rgb2hsl (1 / 2, 1 / 4, 3 / 4) = (3 / 4, 1 / 2, 1 / 2)"
    by (simp add: rgb2hsl_def Let_def)
  show ?thesis
    using hsl_roundtrip [OF u] u v by simp
qed

section \<open>Properties of the kaleidoscope remap\<close>

lemma arctan_series_bounds:
  fixes x :: real
  assumes "0 \<le> x" and "x \<le> 1"
  shows "(\<Sum>i<2 * n. (- 1) ^ i * (1 / real (i * 2 + 1) * x ^ (i * 2 + 1))) \<le> arctan x"
    and "arctan x \<le> (\<Sum>i<2 * n + 1. (- 1) ^ i * (1 / real (i * 2 + 1) * x ^ (i * 2 + 1)))"
proof -
  let ?a = "\<lambda>n. 1 / real (n * 2 + 1) * x ^ (n * 2 + 1)"
  have abs: "\<bar>x\<bar> \<le> 1"
    using assms by simp
  have zero: "?a \<longlonglongrightarrow> 0"
    using abs by (rule zeroseq_arctan_series)
  have pos: "0 \<le> ?a k" for k
    using assms by simp
  have mono: "?a (Suc k) \<le> ?a k" for k
  proof -
    have "x ^ (Suc k * 2 + 1) \<le> x ^ (k * 2 + 1)"
      using assms by (intro power_decreasing) simp_all
    moreover have "1 / real (Suc k * 2 + 1) \<le> 1 / real (k * 2 + 1)"
      by (simp add: field_simps)
    moreover have "0 \<le> x ^ (Suc k * 2 + 1)"
      using assms by simp
    ultimately show ?thesis
      by (intro mult_mono) simp_all
  qed
  have ser: "arctan x = (\<Sum>k. (- 1) ^ k * ?a k)"
    using abs by (rule arctan_series)
  show "(\<Sum>i<2 * n. (- 1) ^ i * ?a i) \<le> arctan x"
    unfolding ser using summable_Leibniz'(2) [of ?a n, OF zero pos mono] .
  show "arctan x \<le> (\<Sum>i<2 * n + 1. (- 1) ^ i * ?a i)"
    unfolding ser using summable_Leibniz'(4) [of ?a n, OF zero pos mono] .
qed

lemma arctan_fifth_lower: "6679449362 / 33837890625 \<le> arctan (1 / 5)"
proof -
  have "(\<Sum>i<2 * 3. (- 1) ^ i * (1 / real (i * 2 + 1) * (1 / 5) ^ (i * 2 + 1))) \<le> arctan (1 / 5 :: real)"
    by (rule arctan_series_bounds(1)) simp_all
  moreover have "(\<Sum>i<2 * 3. (- 1) ^ i * (1 / real (i * 2 + 1) * (1 / 5 :: real) ^ (i * 2 + 1)))
      = 6679449362 / 33837890625"
    by (simp add: eval_nat_numeral)
  ultimately show ?thesis
    by simp
qed

lemma arctan_239_upper: "arctan (1 / 239) \<le> 48941844013 / 11697168977985"
proof -
  have "arctan (1 / 239 :: real)
      \<le> (\<Sum>i<2 * 1 + 1. (- 1) ^ i * (1 / real (i * 2 + 1) * (1 / 239) ^ (i * 2 + 1)))"
    by (rule arctan_series_bounds(2)) simp_all
  moreover have "(\<Sum>i<2 * 1 + 1. (- 1) ^ i * (1 / real (i * 2 + 1) * (1 / 239 :: real) ^ (i * 2 + 1)))
      = 48941844013 / 11697168977985"
    by (simp add: eval_nat_numeral)
  ultimately show ?thesis
    by simp
qed

lemma pi_lower: "3.14159265 < pi"
proof -
  have "pi = 16 * arctan (1 / 5) - 4 * arctan (1 / 239)"
    using machin by simp
  moreover have "16 * (6679449362 / 33837890625) - 4 * (48941844013 / 11697168977985)
      \<le> 16 * arctan (1 / 5) - 4 * arctan (1 / 239 :: real)"
    using arctan_fifth_lower arctan_239_upper by linarith
  moreover have "(3.14159265 :: real)
      < 16 * (6679449362 / 33837890625) - 4 * (48941844013 / 11697168977985)"
    by simp
  ultimately show ?thesis
    by linarith
qed


lemma glsl_mod_range:
  assumes "0 < y"
  shows "0 \<le> glsl_mod x y" and "glsl_mod x y < y"
proof -
  define q where "q = (of_int \<lfloor>x / y\<rfloor> :: real)"
  have xy: "y * (x / y) = x"
    using assms by simp
  have "q \<le> x / y" and "x / y < q + 1"
    unfolding q_def by linarith+
  then have "y * q \<le> y * (x / y)" and "y * (x / y) < y * (q + 1)"
    using assms by (simp_all only: mult_le_cancel_left_pos mult_less_cancel_left_pos)
  then have "y * q \<le> x" and "x < y * q + y"
    unfolding xy by (simp_all add: algebra_simps)
  then show "0 \<le> glsl_mod x y" and "glsl_mod x y < y"
    unfolding glsl_mod_def q_def [symmetric] by linarith+
qed

lemma glsl_mod_small:
  assumes "0 \<le> x" and "x < y"
  shows "glsl_mod x y = x"
proof -
  have "\<lfloor>x / y\<rfloor> = 0"
    using assms by (intro floor_unique) simp_all
  then show ?thesis
    by (simp add: glsl_mod_def)
qed

lemma segmentAngle_pos: "2 < n \<Longrightarrow> 0 < segmentAngle n"
  by (simp add: segmentAngle_def)

lemma segmentAngle_half: "segmentAngle n * 0.5 = segmentAngle n / 2"
  by simp

lemma segmentAngle_below:
  assumes "2 < n"
  shows "segmentAngle n / 2 < 2 * pi / n / 2" and "segmentAngle n / 2 < pi / 2"
proof -
  have n: "0 < n"
    using assms by simp
  have e1: "segmentAngle n / 2 = 3.14159265 / n"
    by (simp add: segmentAngle_def)
  have e2: "2 * pi / n / 2 = pi / n"
    by simp
  have lt: "3.14159265 / n < pi / n"
    using pi_lower n by (rule divide_strict_right_mono)
  show "segmentAngle n / 2 < 2 * pi / n / 2"
    unfolding e1 e2 by (rule lt)
  have "pi / n < pi / 2"
    using assms by (intro divide_strict_left_mono) simp_all
  then show "segmentAngle n / 2 < pi / 2"
    unfolding e1 using lt by linarith
qed

lemma folded_angle_range:
  assumes "2 < n"
  shows "0 \<le> folded_angle u n v" and "folded_angle u n v \<le> segmentAngle n / 2"
proof -
  let ?m = "glsl_mod (glsl_atan u (snd v) (fst v)) (segmentAngle n)"
  have seg: "0 < segmentAngle n"
    using assms by (rule segmentAngle_pos)
  have m: "0 \<le> ?m" "?m < segmentAngle n"
    using glsl_mod_range [OF seg] by blast+
  have f: "folded_angle u n v = (if ?m > segmentAngle n / 2 then segmentAngle n - ?m else ?m)"
    unfolding folded_angle_def Let_def segmentAngle_half ..
  show "0 \<le> folded_angle u n v"
    unfolding f using m by (cases "?m > segmentAngle n / 2") simp_all
  show "folded_angle u n v \<le> segmentAngle n / 2"
    unfolding f using m by (cases "?m > segmentAngle n / 2") simp_all
qed

lemma glsl_atan_polar:
  assumes "0 < r" and "0 \<le> a" and "a < pi / 2"
  shows "glsl_atan u (sin a * r) (cos a * r) = a"
proof -
  have c: "0 < cos a"
    using assms(2,3) by (intro cos_gt_zero_pi) simp_all
  then have "0 < cos a * r"
    using assms(1) by simp
  then have "glsl_atan u (sin a * r) (cos a * r) = arctan (sin a * r / (cos a * r))"
    by (simp add: glsl_atan_def)
  also have "sin a * r / (cos a * r) = tan a"
    using assms(1) by (simp add: tan_def)
  also have "arctan (tan a) = a"
    using assms(2,3) by (intro arctan_tan) simp_all
  finally show ?thesis .
qed

lemma glsl_length_polar:
  assumes "0 \<le> r"
  shows "glsl_length (cos a * r, sin a * r) = r"
proof -
  have "(cos a)\<^sup>2 * r\<^sup>2 + (sin a)\<^sup>2 * r\<^sup>2 = ((cos a)\<^sup>2 + (sin a)\<^sup>2) * r\<^sup>2"
    by (simp only: distrib_right)
  also have "\<dots> = r\<^sup>2"
    by simp
  finally have "(cos a * r)\<^sup>2 + (sin a * r)\<^sup>2 = r\<^sup>2"
    by (simp only: power_mult_distrib)
  then have "glsl_length (cos a * r, sin a * r) = sqrt (r\<^sup>2)"
    by (simp only: glsl_length_def fst_conv snd_conv power2_eq_square)
  then show ?thesis
    using assms by simp
qed

lemma glsl_length_nonneg: "0 \<le> glsl_length v"
  by (simp add: glsl_length_def)

lemma half_less:
  fixes a s :: real
  shows "a \<le> s / 2 \<Longrightarrow> 0 < s \<Longrightarrow> a < s"
  by linarith

lemma folded_angle_polar:
  assumes "2 < n" and "0 < r" and "0 \<le> a" and "a \<le> segmentAngle n / 2"
  shows "folded_angle u n (cos a * r, sin a * r) = a"
proof -
  have seg: "0 < segmentAngle n"
    using assms(1) by (rule segmentAngle_pos)
  have "a < pi / 2"
    using assms(4) segmentAngle_below(2) [OF assms(1)] by linarith
  then have at: "glsl_atan u (sin a * r) (cos a * r) = a"
    using assms(2,3) by (intro glsl_atan_polar)
  have lt: "a < segmentAngle n"
    using assms(4) seg by (rule half_less)
  have md: "glsl_mod a (segmentAngle n) = a"
    using assms(3) lt by (rule glsl_mod_small)
  have ng: "\<not> a > segmentAngle n / 2"
    using assms(4) by simp
  show ?thesis
    unfolding folded_angle_def Let_def fst_conv snd_conv at md segmentAngle_half
    using ng by (simp only: if_False)
qed

lemma kaleidoscope_fixed:
  assumes "2 < n" and "0 \<le> r" and "0 \<le> a" and "a \<le> segmentAngle n / 2"
  shows "(cos (folded_angle u n (cos a * r, sin a * r)) * glsl_length (cos a * r, sin a * r),
          sin (folded_angle u n (cos a * r, sin a * r)) * glsl_length (cos a * r, sin a * r))
         = (cos a * r, sin a * r)"
proof (cases "r = 0")
  case True
  then show ?thesis
    by (simp add: glsl_length_def)
next
  case False
  then have "0 < r"
    using assms(2) by simp
  then have "folded_angle u n (cos a * r, sin a * r) = a"
    using assms by (intro folded_angle_polar)
  then show ?thesis
    using assms(2) by (simp add: glsl_length_polar)
qed

text \<open>
  Claim C6. With the mirror active (\<open>u_mirror > 0.5\<close>) and more than two segments, the
  remapped coordinate is the point at the original distance \<open>r\<close> from the screen centre in
  the direction of the folded angle \<open>a\<close>: \<open>center + r * (cos a, sin a)\<close>. So it is as far
  from the centre as the original one, and off the centre its angle, as \<open>atan\<close> measures
  it, is \<open>a\<close>. The folded angle lies between 0 and half the segment angle, which is below
  \<open>(2 * pi / u_mirrorSegments) / 2\<close> because the literal for pi is below pi. Remapping a
  remapped coordinate changes nothing, whatever \<open>atan\<close> returns at the origin.
\<close>

theorem kaleidoscope_fold:
  assumes "u_mirror > 0.5" and "u_mirrorSegments > 2"
  shows "mirror_stage u u_mirror u_mirrorSegments split center fragCoord
      = (fst center + distance_from center fragCoord
           * cos (folded_angle u u_mirrorSegments
                   (fst fragCoord - fst center, snd fragCoord - snd center)),
         snd center + distance_from center fragCoord
           * sin (folded_angle u u_mirrorSegments
                   (fst fragCoord - fst center, snd fragCoord - snd center)))
    \<and> distance_from center (mirror_stage u u_mirror u_mirrorSegments split center fragCoord)
      = distance_from center fragCoord
    \<and> (0 < distance_from center fragCoord \<longrightarrow>
        glsl_atan u'
          (snd (mirror_stage u u_mirror u_mirrorSegments split center fragCoord) - snd center)
          (fst (mirror_stage u u_mirror u_mirrorSegments split center fragCoord) - fst center)
        = folded_angle u u_mirrorSegments (fst fragCoord - fst center, snd fragCoord - snd center))
    \<and> 0 \<le> folded_angle u u_mirrorSegments (fst fragCoord - fst center, snd fragCoord - snd center)
    \<and> folded_angle u u_mirrorSegments (fst fragCoord - fst center, snd fragCoord - snd center)
        \<le> segmentAngle u_mirrorSegments / 2
    \<and> folded_angle u u_mirrorSegments (fst fragCoord - fst center, snd fragCoord - snd center)
        \<le> 2 * pi / u_mirrorSegments / 2
    \<and> mirror_stage u' u_mirror u_mirrorSegments split center
         (mirror_stage u u_mirror u_mirrorSegments split center fragCoord)
       = mirror_stage u u_mirror u_mirrorSegments split center fragCoord"
proof -
  let ?v = "(fst fragCoord - fst center, snd fragCoord - snd center)"
  let ?a = "folded_angle u u_mirrorSegments ?v"
  let ?r = "glsl_length ?v"
  have st: "mirror_stage w u_mirror u_mirrorSegments split center fc
      = (cos (folded_angle w u_mirrorSegments (fst fc - fst center, snd fc - snd center))
           * glsl_length (fst fc - fst center, snd fc - snd center) + fst center,
         sin (folded_angle w u_mirrorSegments (fst fc - fst center, snd fc - snd center))
           * glsl_length (fst fc - fst center, snd fc - snd center) + snd center)" for w fc
    using assms by (simp add: mirror_stage_def Let_def)
  have polar: "mirror_stage u u_mirror u_mirrorSegments split center fragCoord
      = (fst center + distance_from center fragCoord * cos ?a,
         snd center + distance_from center fragCoord * sin ?a)"
    by (simp add: st distance_from_def)
  have a0: "0 \<le> ?a" and a1: "?a \<le> segmentAngle u_mirrorSegments / 2"
    using folded_angle_range [of u_mirrorSegments u ?v] assms(2) by simp_all
  have a2: "?a \<le> 2 * pi / u_mirrorSegments / 2"
    using a1 segmentAngle_below(1) [OF assms(2)] by linarith
  have a3: "?a < pi / 2"
    using a1 segmentAngle_below(2) [OF assms(2)] by linarith
  have r0: "0 \<le> ?r"
    by (rule glsl_length_nonneg)
  have dist: "distance_from center (mirror_stage u u_mirror u_mirrorSegments split center fragCoord)
      = distance_from center fragCoord"
    using r0 by (simp add: st distance_from_def glsl_length_polar)
  have ang: "0 < distance_from center fragCoord \<longrightarrow>
        glsl_atan u'
          (snd (mirror_stage u u_mirror u_mirrorSegments split center fragCoord) - snd center)
          (fst (mirror_stage u u_mirror u_mirrorSegments split center fragCoord) - fst center)
        = ?a"
  proof
    assume "0 < distance_from center fragCoord"
    then have "0 < ?r"
      by (simp add: distance_from_def)
    then have "glsl_atan u' (sin ?a * ?r) (cos ?a * ?r) = ?a"
      using a0 a3 by (rule glsl_atan_polar)
    then show "glsl_atan u'
          (snd (mirror_stage u u_mirror u_mirrorSegments split center fragCoord) - snd center)
          (fst (mirror_stage u u_mirror u_mirrorSegments split center fragCoord) - fst center)
        = ?a"
      by (simp add: st)
  qed
  have fx: "(cos (folded_angle u' u_mirrorSegments (cos ?a * ?r, sin ?a * ?r))
               * glsl_length (cos ?a * ?r, sin ?a * ?r),
          sin (folded_angle u' u_mirrorSegments (cos ?a * ?r, sin ?a * ?r))
               * glsl_length (cos ?a * ?r, sin ?a * ?r))
         = (cos ?a * ?r, sin ?a * ?r)"
    using assms(2) r0 a0 a1 by (intro kaleidoscope_fixed) simp_all
  have idem: "mirror_stage u' u_mirror u_mirrorSegments split center
         (mirror_stage u u_mirror u_mirrorSegments split center fragCoord)
       = mirror_stage u u_mirror u_mirrorSegments split center fragCoord"
    using fx by (simp add: st)
  show ?thesis
    using polar dist ang a0 a1 a2 idem by blast
qed

theorem kaleidoscope_fold_witness:
  "(1 :: real) > 0.5 \<and> (6 :: real) > 2
   \<and> 0 < distance_from (0, 0) (0, 1)
   \<and> mirror_stage 0 1 6 (1 / 2) (0, 0) (0, 1)
       = (cos (folded_angle 0 6 (0, 1)), sin (folded_angle 0 6 (0, 1)))
   \<and> mirror_stage 0 1 6 (1 / 2) (0, 0) (0, 1) \<noteq> (0, 1)
   \<and> distance_from (0, 0) (mirror_stage 0 1 6 (1 / 2) (0, 0) (0, 1)) = 1
   \<and> glsl_atan 0 (snd (mirror_stage 0 1 6 (1 / 2) (0, 0) (0, 1)))
        (fst (mirror_stage 0 1 6 (1 / 2) (0, 0) (0, 1)))
       = folded_angle 0 6 (0, 1)
   \<and> 0 \<le> folded_angle 0 6 (0, 1)
   \<and> folded_angle 0 6 (0, 1) \<le> 2 * pi / 6 / 2
   \<and> mirror_stage 0 1 6 (1 / 2) (0, 0) (mirror_stage 0 1 6 (1 / 2) (0, 0) (0, 1))
       = mirror_stage 0 1 6 (1 / 2) (0, 0) (0, 1)"
proof -
  have a: "(1 :: real) > 0.5" and b: "(6 :: real) > 2"
    by simp_all
  have d: "distance_from (0, 0) (0, 1) = 1"
    by (simp add: distance_from_def glsl_length_def)
  note k = kaleidoscope_fold [OF a b, of 0 "1 / 2" "(0, 0)" "(0, 1)" 0]
  have p: "mirror_stage 0 1 6 (1 / 2) (0, 0) (0, 1)
       = (cos (folded_angle 0 6 (0, 1)), sin (folded_angle 0 6 (0, 1)))"
    using k d by simp
  have "folded_angle 0 6 (0, 1) \<le> 2 * pi / 6 / 2" and "0 \<le> folded_angle 0 6 (0, 1)"
    using k by simp_all
  then have "0 < cos (folded_angle 0 6 (0, 1))"
    by (intro cos_gt_zero_pi) (use pi_gt_zero in linarith)+
  then have m: "mirror_stage 0 1 6 (1 / 2) (0, 0) (0, 1) \<noteq> (0, 1)"
    unfolding p by simp
  show ?thesis
    using k d p m by simp
qed

end
